theory Spec2Isabelle
  imports Main "HOL-Library.Multiset" "HOL-Library.Sublist" "HOL-Library.Word"
begin

section \<open>Results of Go calls\<close>

text \<open>
  A Go function of this package either returns a value with a nil error, returns a
  non-nil error, or panics (a run-time error such as a slice bound out of range; nothing in
  the package recovers from it).
\<close>

datatype error =
    ErrSyntax string string   \<comment> \<open>strconv.NumError: function name, input; "invalid syntax"\<close>
  | ErrRange string string    \<comment> \<open>strconv.NumError: function name, input; "value out of range"\<close>
  | PathError string          \<comment> \<open>an error of package os\<close>
  | JSONError string          \<comment> \<open>an error of package encoding/json\<close>
  | Errorf string             \<comment> \<open>an error made by fmt.Errorf, with its message\<close>

datatype 'a result = Returned 'a | Failed error | Panicked

section \<open>The parts of the Go standard library the package calls\<close>

subsection \<open>strings.Index and slicing\<close>

text \<open>
  \<open>strings.Index(s, substr)\<close> is the byte index of the first instance of \<open>substr\<close> in
  \<open>s\<close>, or \<open>-1\<close> when there is none. A Go string is a sequence of bytes, as a HOL
  \<open>string\<close> is.
\<close>

fun Index :: "string \<Rightarrow> string \<Rightarrow> int" where
  "Index [] substr = (if substr = [] then 0 else -1)"
| "Index (c # cs) substr =
     (if prefix substr (c # cs) then 0
      else (let i = Index cs substr in if i < 0 then -1 else i + 1))"

text \<open>The slice expression \<open>s[:i]\<close> panics unless \<open>0 \<le> i \<le> len(s)\<close>.\<close>

definition slice_to :: "string \<Rightarrow> int \<Rightarrow> string result" where
  "slice_to s i = (if i < 0 \<or> int (length s) < i then Panicked else Returned (take (nat i) s))"

subsection \<open>strconv.Atoi and strconv.Itoa\<close>

text \<open>The size of Go's \<open>int\<close> in bits, on the 64-bit platforms.\<close>

definition intSize :: nat where
  "intSize = 64"

definition digitVal :: "char \<Rightarrow> nat option" where
  "digitVal c = (let n = (of_char c :: nat) in if 48 \<le> n \<and> n \<le> 57 then Some (n - 48) else None)"

text \<open>
  \<open>strconv.ParseUint(s, 10, 64)\<close>: the loop over the bytes. A byte that is no decimal
  digit is a syntax error (in base 10 an underscore is one too). Overflow of the 64-bit
  value is found inside the loop, before the bytes that follow are looked at: when
  \<open>n*10\<close> would overflow (\<open>n\<close> has reached the cutoff) or \<open>n*10 + d\<close> exceeds the
  largest value, it is a range error.
\<close>

definition maxUint64 :: nat where
  "maxUint64 = 2 ^ 64 - 1"

fun ParseUint_loop :: "string \<Rightarrow> nat \<Rightarrow> string \<Rightarrow> error + nat" where
  "ParseUint_loop s0 n [] = Inr n"
| "ParseUint_loop s0 n (c # cs) =
     (case digitVal c of
        None \<Rightarrow> Inl (ErrSyntax ''ParseUint'' s0)
      | Some d \<Rightarrow>
          if maxUint64 div 10 + 1 \<le> n then Inl (ErrRange ''ParseUint'' s0)
          else (let n1 = n * 10 + d
                in if maxUint64 < n1 then Inl (ErrRange ''ParseUint'' s0)
                   else ParseUint_loop s0 n1 cs))"

definition ParseUint :: "string \<Rightarrow> error + nat" where
  "ParseUint s = (if s = [] then Inl (ErrSyntax ''ParseUint'' s) else ParseUint_loop s 0 s)"

text \<open>
  \<open>strconv.ParseInt(s, 10, 0)\<close>: the sign is picked off, the rest goes to ParseUint, and
  the value is checked against the range of \<open>int\<close>. Errors name ParseInt and the whole
  input.
\<close>

definition ParseInt :: "string \<Rightarrow> error + int" where
  "ParseInt s =
     (if s = [] then Inl (ErrSyntax ''ParseInt'' s)
      else
        let s0 = s;
            neg = (hd s = CHR ''-'');
            s = (if hd s = CHR ''+'' \<or> hd s = CHR ''-'' then tl s else s)
        in (case ParseUint s of
              Inl err \<Rightarrow>
                (case err of
                   ErrRange fn num \<Rightarrow> Inl (ErrRange ''ParseInt'' s0)
                 | _ \<Rightarrow> Inl (ErrSyntax ''ParseInt'' s0))
            | Inr un \<Rightarrow>
                if \<not> neg \<and> 2 ^ (intSize - 1) \<le> un then Inl (ErrRange ''ParseInt'' s0)
                else if neg \<and> 2 ^ (intSize - 1) < un then Inl (ErrRange ''ParseInt'' s0)
                else Inr (if neg then - int un else int un)))"

text \<open>
  \<open>strconv.Atoi(s)\<close> is \<open>ParseInt(s, 10, 0)\<close> converted to \<open>int\<close>, with Atoi as the
  function named in the error. (Its fast path for inputs shorter than 19 bytes, which
  cannot overflow, returns the same results.)
\<close>

definition Atoi :: "string \<Rightarrow> error + int" where
  "Atoi s =
     (case ParseInt s of
        Inl err \<Rightarrow>
          (case err of
             ErrSyntax fn num \<Rightarrow> Inl (ErrSyntax ''Atoi'' num)
           | ErrRange fn num \<Rightarrow> Inl (ErrRange ''Atoi'' num)
           | _ \<Rightarrow> Inl err)
      | Inr i \<Rightarrow> Inr i)"

text \<open>The decimal digits of a natural number, most significant first.\<close>

fun formatDigits :: "nat \<Rightarrow> string" where
  "formatDigits n =
     (if n < 10 then [''0123456789'' ! n]
      else formatDigits (n div 10) @ [''0123456789'' ! (n mod 10)])"

declare formatDigits.simps [simp del]

text \<open>\<open>strconv.Itoa(i)\<close>, which is also what the verb \<open>%d\<close> of fmt.Sprintf prints.\<close>

definition Itoa :: "int \<Rightarrow> string" where
  "Itoa i = (if i < 0 then CHR ''-'' # formatDigits (nat (- i)) else formatDigits (nat i))"

section \<open>DDL files\<close>

record ddlFile =
  filename :: string
  fileNumber :: int

text \<open>
  \<open>newDDLFile\<close>: the bytes before the first dash are cut off with \<open>f[:i]\<close> and converted
  by Atoi. The index is not checked before slicing.
\<close>

definition newDDLFile :: "string \<Rightarrow> ddlFile result" where
  "newDDLFile f =
     (let i = Index f ''-'' in
      case slice_to f i of
        Panicked \<Rightarrow> Panicked
      | Failed e \<Rightarrow> Failed e
      | Returned fileNumber' \<Rightarrow>
          (case Atoi fileNumber' of
             Inl err \<Rightarrow> Failed err
           | Inr fn \<Rightarrow> Returned \<lparr>filename = f, fileNumber = fn\<rparr>))"

text \<open>
  \<open>readDDLFiles\<close> gets the directory's entries from \<open>os.ReadDir\<close>; of an entry it uses
  \<open>Name()\<close> and \<open>IsDir()\<close> only.
\<close>

record DirEntry =
  Name :: string
  IsDir :: bool

section \<open>Configuration file\<close>

record Database_t =
  Database_Host :: string
  Database_Port :: int
  Database_Name :: string
  Database_User :: string
  Database_Password :: string
  Database_SearchPath :: string

record Config_t =
  Database :: Database_t
  MigrationScriptsDir :: string

record ConfigFile =
  Config :: Config_t

text \<open>
  What the package reads from outside: the content of a file (\<open>os.ReadFile\<close>), the
  ConfigFile that \<open>json.Unmarshal\<close> decodes from such content, and the entries of a
  directory (\<open>os.ReadDir\<close>). Each of them may fail with an error instead.
\<close>

record world =
  os_ReadFile :: "string \<Rightarrow> error + string"
  json_Unmarshal :: "string \<Rightarrow> error + ConfigFile"
  os_ReadDir :: "string \<Rightarrow> error + DirEntry list"

definition NewConfigFile :: "world \<Rightarrow> string \<Rightarrow> ConfigFile result" where
  "NewConfigFile w configFilePath =
     (case os_ReadFile w configFilePath of
        Inl err \<Rightarrow> Failed err
      | Inr b \<Rightarrow>
          (case json_Unmarshal w b of
             Inl err \<Rightarrow> Failed err
           | Inr f \<Rightarrow> Returned f))"

section \<open>Sorting by file number\<close>

text \<open>
  \<open>byFileNumber\<close> is \<open>[]ddlFile\<close> with the three methods of \<open>sort.Interface\<close>. Go
  panics when an index is outside the slice; sort.Sort calls the methods with indices
  inside it only.
\<close>

type_synonym byFileNumber = "ddlFile list"

definition Len :: "byFileNumber \<Rightarrow> nat" where
  "Len bfn = length bfn"

definition Swap :: "byFileNumber \<Rightarrow> nat \<Rightarrow> nat \<Rightarrow> byFileNumber" where
  "Swap bfn i j = bfn[i := bfn ! j, j := bfn ! i]"

definition Less :: "byFileNumber \<Rightarrow> nat \<Rightarrow> nat \<Rightarrow> bool" where
  "Less bfn i j = (fileNumber (bfn ! i) < fileNumber (bfn ! j))"

subsection \<open>sort.Sort\<close>

text \<open>
  \<open>sort.Sort(data)\<close> of the standard library, as of Go 1.19: pattern-defeating quicksort
  on the methods Len, Less and Swap of its argument, with insertion sort for slices of at
  most 12 elements and heap sort as the way out of bad pivots. The slice that the methods
  work on is passed along and returned; indices are natural numbers.
\<close>

text \<open>\<open>insertionSort(data, a, b)\<close>: the inner loop moves element \<open>j\<close> down to its place.\<close>

fun insertionSort_down :: "byFileNumber \<Rightarrow> nat \<Rightarrow> nat \<Rightarrow> byFileNumber" where
  "insertionSort_down data a j =
     (if a < j \<and> Less data j (j - 1) then insertionSort_down (Swap data j (j - 1)) a (j - 1)
      else data)"

declare insertionSort_down.simps [simp del]

function insertionSort_from :: "byFileNumber \<Rightarrow> nat \<Rightarrow> nat \<Rightarrow> nat \<Rightarrow> byFileNumber" where
  "insertionSort_from data a b i =
     (if i < b then insertionSort_from (insertionSort_down data a i) a b (i + 1) else data)"
  by pat_completeness auto
termination
  by (relation "measure (\<lambda>(data, a, b, i). b - i)") auto

declare insertionSort_from.simps [simp del]

definition insertionSort :: "byFileNumber \<Rightarrow> nat \<Rightarrow> nat \<Rightarrow> byFileNumber" where
  "insertionSort data a b = insertionSort_from data a b (a + 1)"

text \<open>
  \<open>siftDown(data, lo, hi, first)\<close>: the loop over \<open>root\<close>, which starts at \<open>lo\<close>.
\<close>

function siftDown_from :: "byFileNumber \<Rightarrow> nat \<Rightarrow> nat \<Rightarrow> nat \<Rightarrow> byFileNumber" where
  "siftDown_from data hi first root =
     (let child = 2 * root + 1 in
      if hi \<le> child then data
      else
        let child = (if child + 1 < hi \<and> Less data (first + child) (first + child + 1)
                     then child + 1 else child)
        in if \<not> Less data (first + root) (first + child) then data
           else siftDown_from (Swap data (first + root) (first + child)) hi first child)"
  by pat_completeness auto
termination
  by (relation "measure (\<lambda>(data, hi, first, root). hi - root)") (auto simp: Let_def)

declare siftDown_from.simps [simp del]

definition siftDown :: "byFileNumber \<Rightarrow> nat \<Rightarrow> nat \<Rightarrow> nat \<Rightarrow> byFileNumber" where
  "siftDown data lo hi first = siftDown_from data hi first lo"

text \<open>
  \<open>heapSort(data, a, b)\<close>. Its two loops count \<open>i\<close> down to 0: the first builds the
  heap from \<open>(hi - 1) / 2\<close>, the second pops the elements from \<open>hi - 1\<close> (and does not
  run when \<open>hi\<close> is 0).
\<close>

fun heapSort_build :: "byFileNumber \<Rightarrow> nat \<Rightarrow> nat \<Rightarrow> nat \<Rightarrow> byFileNumber" where
  "heapSort_build data hi first 0 = siftDown data 0 hi first"
| "heapSort_build data hi first (Suc i) =
     heapSort_build (siftDown data (Suc i) hi first) hi first i"

fun heapSort_pop :: "byFileNumber \<Rightarrow> nat \<Rightarrow> nat \<Rightarrow> byFileNumber" where
  "heapSort_pop data first 0 = siftDown (Swap data first (first + 0)) 0 0 first"
| "heapSort_pop data first (Suc i) =
     heapSort_pop (siftDown (Swap data first (first + Suc i)) 0 (Suc i) first) first i"

definition heapSort :: "byFileNumber \<Rightarrow> nat \<Rightarrow> nat \<Rightarrow> byFileNumber" where
  "heapSort data a b =
     (let first = a; hi = b - a;
          data = heapSort_build data hi first ((hi - 1) div 2)
      in if hi = 0 then data else heapSort_pop data first (hi - 1))"

text \<open>
  \<open>partialInsertionSort(data, a, b)\<close> sorts the slice when only a few elements are out
  of place, and tells whether the slice is sorted at the end. Its loops: the scan over the
  elements in order, the shift of the smaller element to the left (down to index 1, as the
  library has it) and the shift of the greater one to the right.
\<close>

function partialInsertionSort_scan :: "byFileNumber \<Rightarrow> nat \<Rightarrow> nat \<Rightarrow> nat" where
  "partialInsertionSort_scan data b i =
     (if i < b \<and> \<not> Less data i (i - 1) then partialInsertionSort_scan data b (i + 1) else i)"
  by pat_completeness auto
termination
  by (relation "measure (\<lambda>(data, b, i). b - i)") auto

declare partialInsertionSort_scan.simps [simp del]

fun partialInsertionSort_left :: "byFileNumber \<Rightarrow> nat \<Rightarrow> byFileNumber" where
  "partialInsertionSort_left data j =
     (if 1 \<le> j \<and> Less data j (j - 1) then partialInsertionSort_left (Swap data j (j - 1)) (j - 1)
      else data)"

declare partialInsertionSort_left.simps [simp del]

function partialInsertionSort_right :: "byFileNumber \<Rightarrow> nat \<Rightarrow> nat \<Rightarrow> byFileNumber" where
  "partialInsertionSort_right data b j =
     (if j < b \<and> Less data j (j - 1) then partialInsertionSort_right (Swap data j (j - 1)) b (j + 1)
      else data)"
  by pat_completeness auto
termination
  by (relation "measure (\<lambda>(data, b, j). b - j)") auto

declare partialInsertionSort_right.simps [simp del]

definition maxSteps :: nat where
  "maxSteps = 5"

definition shortestShifting :: nat where
  "shortestShifting = 50"

function partialInsertionSort_steps ::
  "byFileNumber \<Rightarrow> nat \<Rightarrow> nat \<Rightarrow> nat \<Rightarrow> nat \<Rightarrow> byFileNumber \<times> bool" where
  "partialInsertionSort_steps data a b i j =
     (if j < maxSteps then
        (let i = partialInsertionSort_scan data b i in
         if i = b then (data, True)
         else if b - a < shortestShifting then (data, False)
         else
           let data = Swap data i (i - 1);
               data = (if 2 \<le> i - a then partialInsertionSort_left data (i - 1) else data);
               data = (if 2 \<le> b - i then partialInsertionSort_right data b (i + 1) else data)
           in partialInsertionSort_steps data a b i (j + 1))
      else (data, False))"
  by pat_completeness auto
termination
  by (relation "measure (\<lambda>(data, a, b, i, j). maxSteps - j)") auto

declare partialInsertionSort_steps.simps [simp del]

definition partialInsertionSort :: "byFileNumber \<Rightarrow> nat \<Rightarrow> nat \<Rightarrow> byFileNumber \<times> bool" where
  "partialInsertionSort data a b = partialInsertionSort_steps data a b (a + 1) 0"

text \<open>
  \<open>breakPatterns(data, a, b)\<close> scatters three elements around the middle, with indices
  from a xorshift generator on 64-bit words (the shifts are 13, 7 and 17). What is proved
  of the sort below uses of these indices only that they lie within the slice.
\<close>

definition xorshift_Next :: "64 word \<Rightarrow> 64 word" where
  "xorshift_Next r =
     (let r = xor r (push_bit 13 r);
          r = xor r (drop_bit 7 r);
          r = xor r (push_bit 17 r)
      in r)"

fun bits_Len :: "nat \<Rightarrow> nat" where
  "bits_Len n = (if n = 0 then 0 else Suc (bits_Len (n div 2)))"

declare bits_Len.simps [simp del]

definition nextPowerOfTwo :: "nat \<Rightarrow> nat" where
  "nextPowerOfTwo length' = 2 ^ bits_Len length'"

definition breakPatterns_step ::
  "nat \<Rightarrow> nat \<Rightarrow> nat \<Rightarrow> nat \<Rightarrow> byFileNumber \<times> 64 word \<Rightarrow> nat \<Rightarrow> byFileNumber \<times> 64 word" where
  "breakPatterns_step a length' modulus idx state i =
     (let data = fst state;
          random = xorshift_Next (snd state);
          other = unat (and random (of_nat modulus - 1));
          other = (if length' \<le> other then other - length' else other)
      in (Swap data (idx - 1 + i) (a + other), random))"

definition breakPatterns :: "byFileNumber \<Rightarrow> nat \<Rightarrow> nat \<Rightarrow> byFileNumber" where
  "breakPatterns data a b =
     (let length' = b - a in
      if 8 \<le> length' then
        (let random = of_nat length';
             modulus = nextPowerOfTwo length';
             idx = a + (length' div 4) * 2 - 1
         in fst (foldl (breakPatterns_step a length' modulus idx) (data, random) [0, 1, 2]))
      else data)"

text \<open>
  \<open>choosePivot(data, a, b)\<close> picks a pivot and tells whether the slice looks increasing
  or decreasing. It does not change the slice.
\<close>

datatype sortedHint = unknownHint | increasingHint | decreasingHint

definition order2 :: "byFileNumber \<Rightarrow> nat \<Rightarrow> nat \<Rightarrow> nat \<Rightarrow> nat \<times> nat \<times> nat" where
  "order2 data a b swaps = (if Less data b a then (b, a, swaps + 1) else (a, b, swaps))"

definition median :: "byFileNumber \<Rightarrow> nat \<Rightarrow> nat \<Rightarrow> nat \<Rightarrow> nat \<Rightarrow> nat \<times> nat" where
  "median data a b c swaps =
     (let (a, b, swaps) = order2 data a b swaps;
          (b, c, swaps) = order2 data b c swaps;
          (a, b, swaps) = order2 data a b swaps
      in (b, swaps))"

definition medianAdjacent :: "byFileNumber \<Rightarrow> nat \<Rightarrow> nat \<Rightarrow> nat \<times> nat" where
  "medianAdjacent data a swaps = median data (a - 1) a (a + 1) swaps"

definition shortestNinther :: nat where
  "shortestNinther = 50"

definition maxSwaps :: nat where
  "maxSwaps = 4 * 3"

definition choosePivot :: "byFileNumber \<Rightarrow> nat \<Rightarrow> nat \<Rightarrow> nat \<times> sortedHint" where
  "choosePivot data a b =
     (let l = b - a;
          i = a + l div 4 * 1;
          j = a + l div 4 * 2;
          k = a + l div 4 * 3;
          (j, swaps) =
            (if 8 \<le> l then
               (let (i, j, k, swaps) =
                  (if shortestNinther \<le> l then
                     (let (i, swaps) = medianAdjacent data i 0;
                          (j, swaps) = medianAdjacent data j swaps;
                          (k, swaps) = medianAdjacent data k swaps
                      in (i, j, k, swaps))
                   else (i, j, k, 0))
                in median data i j k swaps)
             else (j, 0))
      in if swaps = 0 then (j, increasingHint)
         else if swaps = maxSwaps then (j, decreasingHint)
         else (j, unknownHint))"

function reverseRange_from :: "byFileNumber \<Rightarrow> nat \<Rightarrow> nat \<Rightarrow> byFileNumber" where
  "reverseRange_from data i j =
     (if i < j then reverseRange_from (Swap data i j) (i + 1) (j - 1) else data)"
  by pat_completeness auto
termination
  by (relation "measure (\<lambda>(data, i, j). j - i)") auto

declare reverseRange_from.simps [simp del]

definition reverseRange :: "byFileNumber \<Rightarrow> nat \<Rightarrow> nat \<Rightarrow> byFileNumber" where
  "reverseRange data a b = reverseRange_from data a (b - 1)"

text \<open>
  \<open>partition(data, a, b, pivot)\<close> and \<open>partitionEqual(data, a, b, pivot)\<close>. In their
  loops the index \<open>j\<close> of the library is kept as \<open>j1 = j + 1\<close>, a natural number also
  when \<open>j\<close> has passed below the first index: \<open>i \<le> j\<close> reads \<open>i < j1\<close>.
\<close>

function partition_up :: "byFileNumber \<Rightarrow> nat \<Rightarrow> nat \<Rightarrow> nat \<Rightarrow> nat" where
  "partition_up data a i j1 =
     (if i < j1 \<and> Less data i a then partition_up data a (i + 1) j1 else i)"
  by pat_completeness auto
termination
  by (relation "measure (\<lambda>(data, a, i, j1). j1 - i)") auto

declare partition_up.simps [simp del]

fun partition_down :: "byFileNumber \<Rightarrow> nat \<Rightarrow> nat \<Rightarrow> nat \<Rightarrow> nat" where
  "partition_down data a i j1 =
     (if i < j1 \<and> \<not> Less data (j1 - 1) a then partition_down data a i (j1 - 1) else j1)"

declare partition_down.simps [simp del]

function partition_loop :: "byFileNumber \<Rightarrow> nat \<Rightarrow> nat \<Rightarrow> nat \<Rightarrow> byFileNumber \<times> nat" where
  "partition_loop data a i j1 =
     (let i = partition_up data a i j1;
          j1 = partition_down data a i j1
      in if j1 \<le> i then (data, j1)
         else partition_loop (Swap data i (j1 - 1)) a (i + 1) (j1 - 1))"
  by pat_completeness auto
termination
proof (relation "measure (\<lambda>(data, a, i, j1). j1 - i)")
  show "wf (measure (\<lambda>(data, a, i, j1). j1 - i))"
    by simp
next
  fix data :: byFileNumber and a i j1 i' j1' :: nat
  assume i': "i' = partition_up data a i j1"
    and j1': "j1' = partition_down data a i' j1"
    and more: "\<not> j1' \<le> i'"
  have up: "i \<le> partition_up data a i j1"
    by (induction data a i j1 rule: partition_up.induct) (subst partition_up.simps, auto)
  have down: "partition_down data a i' j1 \<le> j1"
    by (induction data a i' j1 rule: partition_down.induct) (subst partition_down.simps, auto)
  from up down i' j1' more
  show "((Swap data i' (j1' - 1), a, i' + 1, j1' - 1), (data, a, i, j1))
      \<in> measure (\<lambda>(data, a, i, j1). j1 - i)"
    by simp
qed

declare partition_loop.simps [simp del]

definition partition ::
  "byFileNumber \<Rightarrow> nat \<Rightarrow> nat \<Rightarrow> nat \<Rightarrow> byFileNumber \<times> nat \<times> bool" where
  "partition data a b pivot =
     (let data = Swap data a pivot;
          i = partition_up data a (a + 1) b;
          j1 = partition_down data a i b
      in if j1 \<le> i then (Swap data (j1 - 1) a, j1 - 1, True)
         else
           (let data = Swap data i (j1 - 1);
                (data, j1) = partition_loop data a (i + 1) (j1 - 1)
            in (Swap data (j1 - 1) a, j1 - 1, False)))"

function partitionEqual_up :: "byFileNumber \<Rightarrow> nat \<Rightarrow> nat \<Rightarrow> nat \<Rightarrow> nat" where
  "partitionEqual_up data a i j1 =
     (if i < j1 \<and> \<not> Less data a i then partitionEqual_up data a (i + 1) j1 else i)"
  by pat_completeness auto
termination
  by (relation "measure (\<lambda>(data, a, i, j1). j1 - i)") auto

declare partitionEqual_up.simps [simp del]

fun partitionEqual_down :: "byFileNumber \<Rightarrow> nat \<Rightarrow> nat \<Rightarrow> nat \<Rightarrow> nat" where
  "partitionEqual_down data a i j1 =
     (if i < j1 \<and> Less data a (j1 - 1) then partitionEqual_down data a i (j1 - 1) else j1)"

declare partitionEqual_down.simps [simp del]

function partitionEqual_loop :: "byFileNumber \<Rightarrow> nat \<Rightarrow> nat \<Rightarrow> nat \<Rightarrow> byFileNumber \<times> nat" where
  "partitionEqual_loop data a i j1 =
     (let i = partitionEqual_up data a i j1;
          j1 = partitionEqual_down data a i j1
      in if j1 \<le> i then (data, i)
         else partitionEqual_loop (Swap data i (j1 - 1)) a (i + 1) (j1 - 1))"
  by pat_completeness auto
termination
proof (relation "measure (\<lambda>(data, a, i, j1). j1 - i)")
  show "wf (measure (\<lambda>(data, a, i, j1). j1 - i))"
    by simp
next
  fix data :: byFileNumber and a i j1 i' j1' :: nat
  assume i': "i' = partitionEqual_up data a i j1"
    and j1': "j1' = partitionEqual_down data a i' j1"
    and more: "\<not> j1' \<le> i'"
  have up: "i \<le> partitionEqual_up data a i j1"
    by (induction data a i j1 rule: partitionEqual_up.induct)
      (subst partitionEqual_up.simps, auto)
  have down: "partitionEqual_down data a i' j1 \<le> j1"
    by (induction data a i' j1 rule: partitionEqual_down.induct)
      (subst partitionEqual_down.simps, auto)
  from up down i' j1' more
  show "((Swap data i' (j1' - 1), a, i' + 1, j1' - 1), (data, a, i, j1))
      \<in> measure (\<lambda>(data, a, i, j1). j1 - i)"
    by simp
qed

declare partitionEqual_loop.simps [simp del]

definition partitionEqual :: "byFileNumber \<Rightarrow> nat \<Rightarrow> nat \<Rightarrow> nat \<Rightarrow> byFileNumber \<times> nat" where
  "partitionEqual data a b pivot = partitionEqual_loop (Swap data a pivot) a (a + 1) b"

text \<open>
  \<open>pdqsort(data, a, b, limit)\<close>. One run of its loop is one call here, so the two
  flags that the loop keeps, \<open>wasBalanced\<close> and \<open>wasPartitioned\<close>, are arguments: both
  are true when the library calls pdqsort, and a later run of the loop has the values the
  run before has set.
\<close>

definition maxInsertion :: nat where
  "maxInsertion = 12"

function pdqsort ::
  "byFileNumber \<Rightarrow> nat \<Rightarrow> nat \<Rightarrow> nat \<Rightarrow> bool \<Rightarrow> bool \<Rightarrow> byFileNumber" where
  "pdqsort data a b limit wasBalanced wasPartitioned =
     (let length' = b - a in
      if length' \<le> maxInsertion then insertionSort data a b
      else if limit = 0 then heapSort data a b
      else
        (let data = (if \<not> wasBalanced then breakPatterns data a b else data);
             limit = (if \<not> wasBalanced then limit - 1 else limit);
             (pivot, hint) = choosePivot data a b;
             data = (if hint = decreasingHint then reverseRange data a b else data);
             pivot = (if hint = decreasingHint then (b - 1) - (pivot - a) else pivot);
             hint = (if hint = decreasingHint then increasingHint else hint);
             (data, sorted') =
               (if wasBalanced \<and> wasPartitioned \<and> hint = increasingHint
                then partialInsertionSort data a b else (data, False))
         in if sorted' then data
            else if 0 < a \<and> \<not> Less data (a - 1) pivot then
              (let (data, mid) = partitionEqual data a b pivot
               in pdqsort data mid b limit wasBalanced wasPartitioned)
            else
              (let (data, mid, alreadyPartitioned) = partition data a b pivot;
                   leftLen = mid - a;
                   rightLen = b - mid;
                   balanceThreshold = length' div 8
               in if leftLen < rightLen
                  then pdqsort (pdqsort data a mid limit True True) (mid + 1) b limit
                         (balanceThreshold \<le> leftLen) alreadyPartitioned
                  else pdqsort (pdqsort data (mid + 1) b limit True True) a mid limit
                         (balanceThreshold \<le> rightLen) alreadyPartitioned)))"
  by pat_completeness auto
termination pdqsort
proof -
  have up_ge: "i \<le> partition_up d a i j1" for d a i j1
    by (induction d a i j1 rule: partition_up.induct) (subst partition_up.simps, auto)
  have up_le: "partition_up d a i j1 \<le> max i j1" for d a i j1
    by (induction d a i j1 rule: partition_up.induct) (subst partition_up.simps, auto)
  have down_le: "partition_down d a i j1 \<le> j1" for d a i j1
    by (induction d a i j1 rule: partition_down.induct) (subst partition_down.simps, auto)
  have down_ge: "i \<le> j1 \<Longrightarrow> i \<le> partition_down d a i j1" for d a i j1
    by (induction d a i j1 rule: partition_down.induct) (subst partition_down.simps, auto)
  have down_stay: "j1 \<le> i \<Longrightarrow> partition_down d a i j1 = j1" for d a i j1
    by (subst partition_down.simps) simp
  have loop: "i \<le> j1 + 1 \<Longrightarrow>
      i \<le> snd (partition_loop d a i j1) + 1 \<and> snd (partition_loop d a i j1) \<le> j1" for d a i j1
  proof (induction d a i j1 rule: partition_loop.induct)
    case (1 data a i j1)
    define i' where "i' = partition_up data a i j1"
    define j1' where "j1' = partition_down data a i' j1"
    have eq: "partition_loop data a i j1 =
        (if j1' \<le> i' then (data, j1')
         else partition_loop (Swap data i' (j1' - 1)) a (i' + 1) (j1' - 1))"
      by (subst partition_loop.simps) (simp add: Let_def i'_def j1'_def)
    have i': "i \<le> i'" "i' \<le> max i j1"
      unfolding i'_def by (simp_all add: up_ge up_le)
    have j1': "j1' \<le> j1" "i' \<le> j1 \<Longrightarrow> i' \<le> j1'" "j1 \<le> i' \<Longrightarrow> j1' = j1"
      unfolding j1'_def by (simp_all add: down_le down_ge down_stay)
    show ?case
    proof (cases "j1' \<le> i'")
      case True
      with eq i' j1' "1.prems" show ?thesis
        by (cases "i' \<le> j1") auto
    next
      case False
      then have "i' + 1 \<le> j1' - 1 + 1" by simp
      from "1.IH" [OF i'_def j1'_def False this] eq False i' j1' show ?thesis
        by auto
    qed
  qed
  have part: "a \<le> fst (snd (partition d a b p)) \<and> fst (snd (partition d a b p)) < b"
    if "a < b" for d a b p
  proof -
    define d0 where "d0 = Swap d a p"
    define i where "i = partition_up d0 a (a + 1) b"
    define j1 where "j1 = partition_down d0 a i b"
    from that have i: "a + 1 \<le> i" "i \<le> b"
      using up_ge [of "a + 1" d0 a b] up_le [of d0 a "a + 1" b] by (auto simp: i_def)
    then have j1: "i \<le> j1" "j1 \<le> b"
      using down_ge [of i b d0 a] down_le [of d0 a i b] by (auto simp: j1_def)
    have eq: "partition d a b p =
        (if j1 \<le> i then (Swap d0 (j1 - 1) a, j1 - 1, True)
         else (let (data, j1') = partition_loop (Swap d0 i (j1 - 1)) a (i + 1) (j1 - 1)
               in (Swap data (j1' - 1) a, j1' - 1, False)))"
      unfolding partition_def Let_def d0_def i_def j1_def by (rule refl)
    show ?thesis
    proof (cases "j1 \<le> i")
      case True
      with eq have "fst (snd (partition d a b p)) = j1 - 1"
        by simp
      with i j1 True show ?thesis by auto
    next
      case False
      define r where "r = snd (partition_loop (Swap d0 i (j1 - 1)) a (i + 1) (j1 - 1))"
      from False eq have "fst (snd (partition d a b p)) = r - 1"
        by (simp add: r_def split: prod.splits)
      moreover from False have "i + 1 \<le> j1 - 1 + 1" by simp
      from loop [OF this, of "Swap d0 i (j1 - 1)" a] have "i + 1 \<le> r + 1" "r \<le> j1 - 1"
        by (simp_all add: r_def)
      ultimately show ?thesis using i j1 False by auto
    qed
  qed
  have eup_ge: "i \<le> partitionEqual_up d a i j1" for d a i j1
    by (induction d a i j1 rule: partitionEqual_up.induct)
      (subst partitionEqual_up.simps, auto)
  have eup_le: "partitionEqual_up d a i j1 \<le> max i j1" for d a i j1
    by (induction d a i j1 rule: partitionEqual_up.induct)
      (subst partitionEqual_up.simps, auto)
  have edown_le: "partitionEqual_down d a i j1 \<le> j1" for d a i j1
    by (induction d a i j1 rule: partitionEqual_down.induct)
      (subst partitionEqual_down.simps, auto)
  have eloop: "i \<le> snd (partitionEqual_loop d a i j1)
      \<and> snd (partitionEqual_loop d a i j1) \<le> max i j1" for d a i j1
  proof (induction d a i j1 rule: partitionEqual_loop.induct)
    case (1 data a i j1)
    define i' where "i' = partitionEqual_up data a i j1"
    define j1' where "j1' = partitionEqual_down data a i' j1"
    have eq: "partitionEqual_loop data a i j1 =
        (if j1' \<le> i' then (data, i')
         else partitionEqual_loop (Swap data i' (j1' - 1)) a (i' + 1) (j1' - 1))"
      by (subst partitionEqual_loop.simps) (simp add: Let_def i'_def j1'_def)
    have i': "i \<le> i'" "i' \<le> max i j1"
      unfolding i'_def by (simp_all add: eup_ge eup_le)
    have j1': "j1' \<le> j1"
      unfolding j1'_def by (rule edown_le)
    show ?case
    proof (cases "j1' \<le> i'")
      case True
      with eq i' show ?thesis by simp
    next
      case False
      from "1.IH" [OF i'_def j1'_def False] eq False i' j1' show ?thesis
        by auto
    qed
  qed
  have parteq: "a < snd (partitionEqual d a b p) \<and> snd (partitionEqual d a b p) \<le> b"
    if "a < b" for d a b p
    using eloop [of "a + 1" "Swap d a p" a b] that by (auto simp: partitionEqual_def)
  have P1: "a \<le> mid \<and> mid < b"
    if "(d', y) = partition d a b p" and "(mid, ap) = y" and "\<not> b - a \<le> maxInsertion"
    for d' y d a b p mid ap
  proof -
    from that(3) have "a < b" by simp
    from part [OF this, of d p] that(1,2) [symmetric] show ?thesis by simp
  qed
  have P2: "a < mid \<and> mid \<le> b"
    if "(d', mid) = partitionEqual d a b p" and "\<not> b - a \<le> maxInsertion"
    for d' d a b p mid
  proof -
    from that(2) have "a < b" by simp
    from parteq [OF this, of d p] that(1) [symmetric] show ?thesis by simp
  qed
  have left: "mid - a < b - a" and right: "b - (mid + 1) < b - a"
    if "(d', y) = partition d a b p" and "(mid, ap) = y" and "\<not> b - a \<le> maxInsertion"
    for d' y d a b p mid ap
    using P1 [OF that] by linarith+
  have equal: "b - mid < b - a"
    if "(d', mid) = partitionEqual d a b p" and "\<not> b - a \<le> maxInsertion"
    for d' d a b p mid
    using P2 [OF that] by linarith
  show ?thesis
    apply (relation "measure (\<lambda>(data, a, b, limit, wasBalanced, wasPartitioned). b - a)")
    subgoal by simp
    subgoal by (simp only: in_measure prod.case) (rule equal; assumption)
    subgoal by (simp only: in_measure prod.case) (rule left; assumption)
    subgoal by (simp only: in_measure prod.case) (rule right; assumption)
    subgoal by (simp only: in_measure prod.case) (rule right; assumption)
    subgoal by (simp only: in_measure prod.case) (rule left; assumption)
    done
qed

declare pdqsort.simps [simp del]

text \<open>\<open>Sort(data)\<close>: nothing to do for fewer than two elements; else pdqsort on all of it.\<close>

definition sort_Sort :: "byFileNumber \<Rightarrow> byFileNumber" where
  "sort_Sort data =
     (let n = Len data in
      if n \<le> 1 then data
      else (let limit = bits_Len n in pdqsort data 0 n limit True True))"

section \<open>Reading the DDL files of a directory\<close>

text \<open>The loop of \<open>readDDLFiles\<close> over the entries, with the slice built so far.\<close>

fun readDDLFiles_loop :: "DirEntry list \<Rightarrow> ddlFile list \<Rightarrow> ddlFile list result" where
  "readDDLFiles_loop [] ddlFiles = Returned ddlFiles"
| "readDDLFiles_loop (file # files) ddlFiles =
     (if IsDir file then readDDLFiles_loop files ddlFiles
      else (case newDDLFile (Name file) of
              Panicked \<Rightarrow> Panicked
            | Failed err \<Rightarrow> Failed err
            | Returned df \<Rightarrow> readDDLFiles_loop files (ddlFiles @ [df])))"

definition readDDLFiles :: "world \<Rightarrow> string \<Rightarrow> ddlFile list result" where
  "readDDLFiles w dir =
     (case os_ReadDir w dir of
        Inl err \<Rightarrow> Failed err
      | Inr files \<Rightarrow>
          (case readDDLFiles_loop files [] of
             Panicked \<Rightarrow> Panicked
           | Failed err \<Rightarrow> Failed err
           | Returned ddlFiles \<Rightarrow> Returned (sort_Sort ddlFiles)))"

section \<open>Data source names\<close>

record PostgreSQLDSN =
  Host :: string
  Port :: int
  DBName :: string
  SearchPath :: string
  User :: string
  Password :: string

definition newPostgreSQLDSN :: "ConfigFile \<Rightarrow> PostgreSQLDSN" where
  "newPostgreSQLDSN f =
     \<lparr>Host = Database_Host (Database (Config f)),
      Port = Database_Port (Database (Config f)),
      DBName = Database_Name (Database (Config f)),
      SearchPath = Database_SearchPath (Database (Config f)),
      User = Database_User (Database (Config f)),
      Password = Database_Password (Database (Config f))\<rparr>"

text \<open>
  \<open>KeywordValueConnectionString\<close>: two Sprintf formats, chosen by the password, and the
  search path added behind a space when there is one. \<open>%s\<close> prints the string as it is,
  \<open>%d\<close> the integer as Itoa does.
\<close>

definition KeywordValueConnectionString :: "PostgreSQLDSN \<Rightarrow> string" where
  "KeywordValueConnectionString dsn =
     (let s =
        (if Password dsn = []
         then ''host='' @ Host dsn @ '' port='' @ Itoa (Port dsn) @ '' dbname='' @ DBName dsn
              @ '' user='' @ User dsn @ '' sslmode=disable''
         else ''host='' @ Host dsn @ '' port='' @ Itoa (Port dsn) @ '' dbname='' @ DBName dsn
              @ '' user='' @ User dsn @ '' password='' @ Password dsn @ '' sslmode=disable'')
      in if SearchPath dsn = [] then s
         else s @ '' '' @ (''search_path='' @ SearchPath dsn))"

subsection \<open>net/url\<close>

datatype encoding =
    encodePath | encodePathSegment | encodeHost | encodeZone
  | encodeUserPassword | encodeQueryComponent | encodeFragment

definition isAlnum :: "char \<Rightarrow> bool" where
  "isAlnum c =
     (let n = (of_char c :: nat)
      in (97 \<le> n \<and> n \<le> 122) \<or> (65 \<le> n \<and> n \<le> 90) \<or> (48 \<le> n \<and> n \<le> 57))"

text \<open>
  \<open>shouldEscape(c, mode)\<close> of net/url: whether byte \<open>c\<close> is written as \<open>%XX\<close> in the part
  of the URL that \<open>mode\<close> names. \<open>CHR 0x27\<close> is the single quote, \<open>CHR 0x22\<close> the double
  quote.
\<close>

definition shouldEscape :: "char \<Rightarrow> encoding \<Rightarrow> bool" where
  "shouldEscape c mode =
     (if isAlnum c then False
      else if (mode = encodeHost \<or> mode = encodeZone)
              \<and> c \<in> set ''!$&()*+,;=:[]<>'' \<union> {CHR 0x27, CHR 0x22} then False
      else if c \<in> set ''-_.~'' then False
      else if c \<in> set ''$&+,/:;=?@'' \<and> mode = encodePath then c = CHR ''?''
      else if c \<in> set ''$&+,/:;=?@'' \<and> mode = encodePathSegment then c \<in> set ''/;,?''
      else if c \<in> set ''$&+,/:;=?@'' \<and> mode = encodeUserPassword then c \<in> set ''@/?:''
      else if c \<in> set ''$&+,/:;=?@'' \<and> mode = encodeQueryComponent then True
      else if c \<in> set ''$&+,/:;=?@'' \<and> mode = encodeFragment then False
      else if mode = encodeFragment \<and> c \<in> set ''!()*'' then False
      else True)"

definition escapeByte :: "encoding \<Rightarrow> char \<Rightarrow> string" where
  "escapeByte mode c =
     (if c = CHR '' '' \<and> mode = encodeQueryComponent then ''+''
      else if shouldEscape c mode
        then [CHR ''%'', ''0123456789ABCDEF'' ! ((of_char c :: nat) div 16),
              ''0123456789ABCDEF'' ! ((of_char c :: nat) mod 16)]
      else [c])"

definition escape :: "string \<Rightarrow> encoding \<Rightarrow> string" where
  "escape s mode = concat (map (escapeByte mode) s)"

definition QueryEscape :: "string \<Rightarrow> string" where
  "QueryEscape s = escape s encodeQueryComponent"

record Userinfo =
  username :: string
  password :: string
  passwordSet :: bool

text \<open>\<open>url.User(username)\<close>: user information with a name and no password set.\<close>

definition url_User :: "string \<Rightarrow> Userinfo" where
  "url_User name = \<lparr>username = name, password = [], passwordSet = False\<rparr>"

definition Userinfo_String :: "Userinfo \<Rightarrow> string" where
  "Userinfo_String u =
     (let s = escape (username u) encodeUserPassword
      in if passwordSet u then s @ '':'' @ escape (password u) encodeUserPassword else s)"

text \<open>
  The fields of \<open>url.URL\<close> that ConnectionURI sets. The other fields keep their zero
  values in this package: Opaque, RawPath and Fragment are empty, ForceQuery and OmitHost
  are false; \<open>String\<close> and \<open>EscapedPath\<close> are modelled for such URLs.
\<close>

record URL =
  URL_Scheme :: string
  URL_User :: "Userinfo option"
  URL_Host :: string
  URL_Path :: string
  URL_RawQuery :: string

definition EscapedPath :: "URL \<Rightarrow> string" where
  "EscapedPath u = (if URL_Path u = ''*'' then ''*'' else escape (URL_Path u) encodePath)"

definition URL_String :: "URL \<Rightarrow> string" where
  "URL_String u =
     (let buf = (if URL_Scheme u \<noteq> [] then URL_Scheme u @ '':'' else []);
          buf =
            (if URL_Scheme u \<noteq> [] \<or> URL_Host u \<noteq> [] \<or> URL_User u \<noteq> None
             then buf
                  @ (if URL_Host u \<noteq> [] \<or> URL_Path u \<noteq> [] \<or> URL_User u \<noteq> None
                     then ''//'' else [])
                  @ (case URL_User u of None \<Rightarrow> [] | Some ui \<Rightarrow> Userinfo_String ui @ ''@'')
                  @ (if URL_Host u \<noteq> [] then escape (URL_Host u) encodeHost else [])
             else buf);
          path = EscapedPath u;
          buf = (if path \<noteq> [] \<and> hd path \<noteq> CHR ''/'' \<and> URL_Host u \<noteq> []
                 then buf @ ''/'' else buf);
          buf = (if buf = [] \<and> CHR '':'' \<in> set (takeWhile (\<lambda>c. c \<noteq> CHR ''/'') path)
                 then buf @ ''./'' else buf);
          buf = buf @ path;
          buf = (if URL_RawQuery u \<noteq> [] then buf @ ''?'' @ URL_RawQuery u else buf)
      in buf)"

text \<open>
  \<open>url.Values\<close> maps a key to a list of values. \<open>Set\<close> replaces the values of a key by one
  value; \<open>Encode\<close> writes \<open>key=value\<close> pairs, both query-escaped, joined by \<open>&\<close>, the
  keys in sorted order (the only map this package encodes has one key).
\<close>

type_synonym Values = "(string \<times> string list) list"

definition Values_Set :: "Values \<Rightarrow> string \<Rightarrow> string \<Rightarrow> Values" where
  "Values_Set v key val = (key, [val]) # filter (\<lambda>kv. fst kv \<noteq> key) v"

definition Values_Encode :: "Values \<Rightarrow> string" where
  "Values_Encode v =
     foldl (\<lambda>buf kv.
              foldl (\<lambda>buf val.
                       (if buf \<noteq> [] then buf @ ''&'' else buf)
                       @ QueryEscape (fst kv) @ ''='' @ QueryEscape val)
                    buf (snd kv))
           [] v"

text \<open>
  \<open>ConnectionURI\<close>. \<open>u.Query()\<close> parses the empty RawQuery of the new URL and so gives
  the empty Values. The password of the DSN is not used.
\<close>

definition ConnectionURI :: "PostgreSQLDSN \<Rightarrow> string" where
  "ConnectionURI dsn =
     (let h = Host dsn;
          h = (if Port dsn \<noteq> 0 then h @ '':'' @ Itoa (Port dsn) else h);
          u = \<lparr>URL_Scheme = ''postgresql'', URL_User = Some (url_User (User dsn)),
               URL_Host = h, URL_Path = DBName dsn, URL_RawQuery = []\<rparr>;
          u = (if SearchPath dsn \<noteq> []
               then (let q = Values_Set [] ''options'' (''-csearch_path='' @ SearchPath dsn)
                     in u\<lparr>URL_RawQuery := Values_Encode q\<rparr>)
               else u)
      in URL_String u)"

section \<open>Arguments for psql\<close>

definition PSQLArgs :: "world \<Rightarrow> bool \<Rightarrow> string \<Rightarrow> string list result" where
  "PSQLArgs w up profile =
     (let configFilePath = ''./config/'' @ profile @ ''.json'' in
      case NewConfigFile w configFilePath of
        Panicked \<Rightarrow> Panicked
      | Failed err \<Rightarrow> Failed err
      | Returned f \<Rightarrow>
          (let dir = MigrationScriptsDir (Config f) @ (if up then ''/up'' else ''/down'') in
           case readDDLFiles w dir of
             Panicked \<Rightarrow> Panicked
           | Failed err \<Rightarrow> Failed err
           | Returned ddlFiles \<Rightarrow>
               if length ddlFiles = 0
               then Failed (Errorf (''there are no DDL files to process in '' @ dir))
               else Returned
                 (foldl (\<lambda>args file. args @ [''-f''] @ [dir @ ''/'' @ filename file])
                    [''-w'', ''-d'', ConnectionURI (newPostgreSQLDSN f), ''-c'',
                     ''select current_database(), current_user, version()'']
                    ddlFiles)))"

subsection \<open>Notions for the sort\<close>

text \<open>
  The file number at an index; a slice that is a rearrangement of another between the
  indices \<open>a\<close> and \<open>b\<close> and the same outside; a slice whose file numbers are in
  non-decreasing order between \<open>a\<close> and \<open>b\<close>; and a slice in which no element in front
  of \<open>a\<close> has a greater file number than an element between \<open>a\<close> and \<open>b\<close>.
\<close>

definition keyAt :: "byFileNumber \<Rightarrow> nat \<Rightarrow> int" where
  "keyAt data i = fileNumber (data ! i)"

definition perm_in :: "nat \<Rightarrow> nat \<Rightarrow> byFileNumber \<Rightarrow> byFileNumber \<Rightarrow> bool" where
  "perm_in a b xs ys =
     (length ys = length xs \<and> mset ys = mset xs
      \<and> (\<forall>i < length xs. i < a \<or> b \<le> i \<longrightarrow> ys ! i = xs ! i))"

definition sorted_in :: "nat \<Rightarrow> nat \<Rightarrow> byFileNumber \<Rightarrow> bool" where
  "sorted_in a b data = (\<forall>i j. a \<le> i \<and> i < j \<and> j < b \<longrightarrow> keyAt data i \<le> keyAt data j)"

definition lower_ok :: "byFileNumber \<Rightarrow> nat \<Rightarrow> nat \<Rightarrow> bool" where
  "lower_ok data a b = (\<forall>i j. i < a \<and> a \<le> j \<and> j < b \<longrightarrow> keyAt data i \<le> keyAt data j)"

text \<open>
  For the quicksort: the element at \<open>mid\<close> is greater than the elements between \<open>a\<close>
  and \<open>mid\<close> and at most the elements between \<open>mid\<close> and \<open>b\<close>.
\<close>

definition pivot_at :: "byFileNumber \<Rightarrow> nat \<Rightarrow> nat \<Rightarrow> nat \<Rightarrow> bool" where
  "pivot_at data a mid b =
     ((\<forall>k. a \<le> k \<and> k < mid \<longrightarrow> keyAt data k < keyAt data mid)
      \<and> (\<forall>k. mid < k \<and> k < b \<longrightarrow> keyAt data mid \<le> keyAt data k))"

text \<open>
  For heap sort: in the heap of \<open>hi\<close> elements that begins at index \<open>first\<close>, every
  node from \<open>lo\<close> on has a file number at least that of its children.
\<close>

definition child :: "nat \<Rightarrow> nat \<Rightarrow> bool" where
  "child c p = (c = 2 * p + 1 \<or> c = 2 * p + 2)"

definition heap_ok :: "byFileNumber \<Rightarrow> nat \<Rightarrow> nat \<Rightarrow> nat \<Rightarrow> bool" where
  "heap_ok data first lo hi =
     (\<forall>p c. lo \<le> p \<and> c < hi \<and> child c p \<longrightarrow> keyAt data (first + c) \<le> keyAt data (first + p))"

section \<open>Notions of the specification\<close>

text \<open>
  A decimal numeral is one digit or more; its value is read by place, most significant
  digit first. With a sign in front it is a signed decimal numeral.
\<close>

definition decimal_numeral :: "string \<Rightarrow> bool" where
  "decimal_numeral ds = (ds \<noteq> [] \<and> set ds \<subseteq> set ''0123456789'')"

fun decimal_value :: "string \<Rightarrow> nat" where
  "decimal_value [] = 0"
| "decimal_value (c # cs) = (of_char c - 48) * 10 ^ length cs + decimal_value cs"

definition signed_decimal_numeral :: "string \<Rightarrow> bool" where
  "signed_decimal_numeral s =
     (case s of
        [] \<Rightarrow> False
      | c # cs \<Rightarrow> if c = CHR ''+'' \<or> c = CHR ''-'' then decimal_numeral cs else decimal_numeral s)"

text \<open>
  The names of the file entries of a listing (the directories left out), whether a name
  parses, and the DDL files parsed from a listing.
\<close>

definition fileEntries :: "DirEntry list \<Rightarrow> string list" where
  "fileEntries entries = map Name (filter (\<lambda>e. \<not> IsDir e) entries)"

definition parses :: "string \<Rightarrow> bool" where
  "parses f = (case newDDLFile f of Returned df \<Rightarrow> True | Failed err \<Rightarrow> False | Panicked \<Rightarrow> False)"

definition all_parse :: "DirEntry list \<Rightarrow> bool" where
  "all_parse entries = list_all parses (fileEntries entries)"

definition parsedFiles :: "DirEntry list \<Rightarrow> ddlFile list" where
  "parsedFiles entries =
     concat (map (\<lambda>f. case newDDLFile f of Returned df \<Rightarrow> [df] | Failed err \<Rightarrow> [] | Panicked \<Rightarrow> [])
       (fileEntries entries))"

text \<open>The first file entry of a listing that does not parse, if there is one.\<close>

definition firstBadEntry :: "DirEntry list \<Rightarrow> string option" where
  "firstBadEntry entries = find (\<lambda>f. \<not> parses f) (fileEntries entries)"

text \<open>
  The arguments of the specification: the fixed prefix with the connection URI, then a
  pair \<open>-f\<close>, path for each file.
\<close>

definition fileArgs :: "string \<Rightarrow> ddlFile list \<Rightarrow> string list" where
  "fileArgs dir ddlFiles = concat (map (\<lambda>file. [''-f'', dir @ ''/'' @ filename file]) ddlFiles)"

definition prefixArgs :: "ConfigFile \<Rightarrow> string list" where
  "prefixArgs f =
     [''-w'', ''-d'', ConnectionURI (newPostgreSQLDSN f), ''-c'',
      ''select current_database(), current_user, version()'']"

section \<open>An example installation\<close>

definition exampleConfig :: ConfigFile where
  "exampleConfig =
     \<lparr>Config =
        \<lparr>Database =
           \<lparr>Database_Host = ''localhost'', Database_Port = 5432, Database_Name = ''mydb'',
            Database_User = ''alice'', Database_Password = [], Database_SearchPath = ''public''\<rparr>,
         MigrationScriptsDir = ''db''\<rparr>\<rparr>"

text \<open>
  A world with the profile \<open>default\<close> and the given entries in \<open>db/up\<close> and \<open>db/down\<close>.
  The bytes \<open>exampleJSON\<close> of the profile's file stand for a JSON text that
  \<open>json.Unmarshal\<close> decodes to exampleConfig.
\<close>

definition exampleJSON :: string where
  "exampleJSON = ''config: database: localhost 5432 mydb alice public; migrationScriptsDir: db''"

definition exampleWorld :: "DirEntry list \<Rightarrow> DirEntry list \<Rightarrow> world" where
  "exampleWorld up down =
     \<lparr>os_ReadFile =
        (\<lambda>p. if p = ''./config/default.json'' then Inr exampleJSON else Inl (PathError p)),
      json_Unmarshal = (\<lambda>b. if b = exampleJSON then Inr exampleConfig else Inl (JSONError b)),
      os_ReadDir = (\<lambda>d. if d = ''db/up'' then Inr up
                         else if d = ''db/down'' then Inr down else Inl (PathError d))\<rparr>"

definition entry :: "string \<Rightarrow> DirEntry" where
  "entry f = \<lparr>Name = f, IsDir = False\<rparr>"

definition subdir :: "string \<Rightarrow> DirEntry" where
  "subdir f = \<lparr>Name = f, IsDir = True\<rparr>"

section \<open>The filename parser\<close>

lemma Index_absent: "c \<notin> set s \<Longrightarrow> Index s [c] = -1"
  by (induction s) auto

lemma Index_first: "c \<notin> set pre \<Longrightarrow> Index (pre @ c # rest) [c] = int (length pre)"
  by (induction pre) auto

lemma digit_char_cases:
  assumes "48 \<le> (of_char c :: nat)" "(of_char c :: nat) \<le> 57"
  shows "c \<in> set ''0123456789''"
proof -
  have "\<And>n::nat. 48 \<le> n \<Longrightarrow> n \<le> 57 \<Longrightarrow>
      n = 48 \<or> n = 49 \<or> n = 50 \<or> n = 51 \<or> n = 52 \<or> n = 53 \<or> n = 54 \<or> n = 55 \<or> n = 56 \<or> n = 57"
    by arith
  from this [OF assms] have "(of_char c :: nat) = of_char CHR ''0'' \<or> (of_char c :: nat) = of_char CHR ''1''
      \<or> (of_char c :: nat) = of_char CHR ''2'' \<or> (of_char c :: nat) = of_char CHR ''3''
      \<or> (of_char c :: nat) = of_char CHR ''4'' \<or> (of_char c :: nat) = of_char CHR ''5''
      \<or> (of_char c :: nat) = of_char CHR ''6'' \<or> (of_char c :: nat) = of_char CHR ''7''
      \<or> (of_char c :: nat) = of_char CHR ''8'' \<or> (of_char c :: nat) = of_char CHR ''9''"
    by simp
  then have "c = CHR ''0'' \<or> c = CHR ''1'' \<or> c = CHR ''2'' \<or> c = CHR ''3'' \<or> c = CHR ''4''
      \<or> c = CHR ''5'' \<or> c = CHR ''6'' \<or> c = CHR ''7'' \<or> c = CHR ''8'' \<or> c = CHR ''9''"
    unfolding of_char_eq_iff .
  then show ?thesis
    by auto
qed

lemma digitVal_digit: "c \<in> set ''0123456789'' \<Longrightarrow> digitVal c = Some (of_char c - 48)"
  by (auto simp: digitVal_def)

lemma digitVal_None: "c \<notin> set ''0123456789'' \<Longrightarrow> digitVal c = None"
  using digit_char_cases [of c] by (auto simp: digitVal_def Let_def)

text \<open>The digit loop on a string of digits: its value, or a range error when that is too large.\<close>

lemma ParseUint_loop_decimal:
  "set ds \<subseteq> set ''0123456789'' \<Longrightarrow> n \<le> maxUint64 \<Longrightarrow>
     ParseUint_loop s0 n ds =
       (if n * 10 ^ length ds + decimal_value ds \<le> maxUint64
        then Inr (n * 10 ^ length ds + decimal_value ds)
        else Inl (ErrRange ''ParseUint'' s0))"
proof (induction ds arbitrary: n)
  case Nil
  then show ?case by simp
next
  case (Cons c cs)
  define d where "d = (of_char c :: nat) - 48"
  define T where "T = n * 10 ^ length (c # cs) + decimal_value (c # cs)"
  from Cons.prems(1) have c: "digitVal c = Some d"
    unfolding d_def by (intro digitVal_digit) simp
  from Cons.prems(1) have cs: "set cs \<subseteq> set ''0123456789''" by simp
  have T: "T = (n * 10 + d) * 10 ^ length cs + decimal_value cs"
    by (simp add: T_def d_def algebra_simps)
  have "(n * 10 + d) * 1 \<le> (n * 10 + d) * 10 ^ length cs"
    by (rule mult_le_mono2) simp
  then have "n * 10 + d \<le> (n * 10 + d) * 10 ^ length cs + decimal_value cs"
    by (simp only: mult_1_right trans_le_add1)
  with T have ge: "n * 10 + d \<le> T" by (simp only:)
  show ?case
  proof (cases "maxUint64 div 10 + 1 \<le> n")
    case True
    then have "maxUint64 < n * 10" by arith
    with ge have "\<not> T \<le> maxUint64" by simp
    with True c show ?thesis
      unfolding T_def [symmetric] by simp
  next
    case small: False
    show ?thesis
    proof (cases "maxUint64 < n * 10 + d")
      case True
      with ge have "\<not> T \<le> maxUint64" by simp
      with True small c show ?thesis
        unfolding T_def [symmetric] by (simp add: Let_def)
    next
      case False
      then have "n * 10 + d \<le> maxUint64" by simp
      from Cons.IH [OF cs this] False small c show ?thesis
        unfolding T_def [symmetric] T by (simp add: Let_def)
    qed
  qed
qed

lemma ParseUint_loop_no_digits:
  "\<not> set ds \<subseteq> set ''0123456789'' \<Longrightarrow>
     ParseUint_loop s0 n ds = Inl (ErrSyntax ''ParseUint'' s0)
     \<or> ParseUint_loop s0 n ds = Inl (ErrRange ''ParseUint'' s0)"
proof (induction ds arbitrary: n)
  case Nil
  then show ?case by simp
next
  case (Cons c cs)
  show ?case
  proof (cases "c \<in> set ''0123456789''")
    case True
    with Cons.prems have "\<not> set cs \<subseteq> set ''0123456789''" by auto
    from Cons.IH [OF this, of "n * 10 + (of_char c - 48)"] digitVal_digit [OF True]
    show ?thesis by (simp add: Let_def)
  next
    case False
    from digitVal_None [OF this] show ?thesis by simp
  qed
qed

lemma ParseUint_decimal:
  assumes "decimal_numeral ds"
  shows "ParseUint ds =
       (if decimal_value ds \<le> maxUint64 then Inr (decimal_value ds)
        else Inl (ErrRange ''ParseUint'' ds))"
proof -
  from assms have ne: "ds \<noteq> []" and dig: "set ds \<subseteq> set ''0123456789''"
    by (simp_all add: decimal_numeral_def)
  from ParseUint_loop_decimal [OF dig, of 0 ds] ne show ?thesis
    by (simp add: ParseUint_def)
qed

lemma ParseUint_no_numeral:
  assumes "\<not> decimal_numeral ds"
  shows "ParseUint ds = Inl (ErrSyntax ''ParseUint'' ds) \<or> ParseUint ds = Inl (ErrRange ''ParseUint'' ds)"
proof (cases "ds = []")
  case True
  then show ?thesis by (simp add: ParseUint_def)
next
  case False
  with assms have "\<not> set ds \<subseteq> set ''0123456789''"
    unfolding decimal_numeral_def by blast
  from ParseUint_loop_no_digits [OF this, of ds 0] False show ?thesis
    by (simp add: ParseUint_def)
qed

lemma decimal_numeral_hd:
  assumes "decimal_numeral ds"
  shows "ds \<noteq> []" and "hd ds \<noteq> CHR ''-''" and "hd ds \<noteq> CHR ''+''"
proof -
  from assms have ne: "ds \<noteq> []" and dig: "set ds \<subseteq> set ''0123456789''"
    by (simp_all add: decimal_numeral_def)
  from ne show "ds \<noteq> []" .
  from ne dig have "hd ds \<in> set ''0123456789''"
    by (cases ds) simp_all
  then show "hd ds \<noteq> CHR ''-''" and "hd ds \<noteq> CHR ''+''"
    by auto
qed

lemma int_range: "(2::nat) ^ (intSize - 1) \<le> maxUint64"
  by (simp add: intSize_def maxUint64_def)

text \<open>What Atoi returns, in terms of the numerals of the specification.\<close>

lemma Atoi_decimal:
  assumes "decimal_numeral ds" "decimal_value ds < 2 ^ (intSize - 1)"
  shows "Atoi ds = Inr (int (decimal_value ds))"
proof -
  from assms(2) int_range have "decimal_value ds \<le> maxUint64" by simp
  with ParseUint_decimal [OF assms(1)] have "ParseUint ds = Inr (decimal_value ds)"
    by simp
  with decimal_numeral_hd [OF assms(1)] assms(2) show ?thesis
    by (simp add: Atoi_def ParseInt_def)
qed


lemma Atoi_too_large:
  assumes "decimal_numeral ds" "2 ^ (intSize - 1) \<le> decimal_value ds"
  shows "Atoi ds = Inl (ErrRange ''Atoi'' ds)"
proof (cases "decimal_value ds \<le> maxUint64")
  case True
  with ParseUint_decimal [OF assms(1)] have "ParseUint ds = Inr (decimal_value ds)"
    by simp
  with decimal_numeral_hd [OF assms(1)] assms(2) show ?thesis
    by (simp add: Atoi_def ParseInt_def)
next
  case False
  with ParseUint_decimal [OF assms(1)] have "ParseUint ds = Inl (ErrRange ''ParseUint'' ds)"
    by simp
  with decimal_numeral_hd [OF assms(1)] show ?thesis
    by (simp add: Atoi_def ParseInt_def)
qed

lemma Atoi_no_numeral:
  assumes "\<not> signed_decimal_numeral s"
  shows "Atoi s = Inl (ErrSyntax ''Atoi'' s) \<or> Atoi s = Inl (ErrRange ''Atoi'' s)"
proof (cases s)
  case Nil
  then show ?thesis by (simp add: Atoi_def ParseInt_def)
next
  case (Cons c cs)
  show ?thesis
  proof (cases "c = CHR ''+'' \<or> c = CHR ''-''")
    case True
    with assms Cons have "\<not> decimal_numeral cs"
      by (simp add: signed_decimal_numeral_def)
    from ParseUint_no_numeral [OF this] True Cons show ?thesis
      by (auto simp: Atoi_def ParseInt_def)
  next
    case False
    with assms Cons have "\<not> decimal_numeral s"
      by (simp add: signed_decimal_numeral_def)
    from ParseUint_no_numeral [OF this] False Cons show ?thesis
      by (auto simp: Atoi_def ParseInt_def)
  qed
qed

lemma newDDLFile_split:
  assumes "CHR ''-'' \<notin> set pre"
  shows "newDDLFile (pre @ ''-'' @ rest) =
     (case Atoi pre of Inl err \<Rightarrow> Failed err
      | Inr fn \<Rightarrow> Returned \<lparr>filename = pre @ ''-'' @ rest, fileNumber = fn\<rparr>)"
  using Index_first [OF assms, of rest]
  by (simp add: newDDLFile_def slice_to_def split: sum.splits)


text \<open>
  A filename with a dash whose bytes before the first dash are no signed decimal numeral
  is refused with an error of Atoi: the syntax error, or the range error when the bytes
  begin with digits enough to overflow.
\<close>

lemma newDDLFile_bad_prefix:
  assumes "CHR ''-'' \<in> set f"
    and "\<not> signed_decimal_numeral (takeWhile (\<lambda>c. c \<noteq> CHR ''-'') f)"
  shows "newDDLFile f = Failed (ErrSyntax ''Atoi'' (takeWhile (\<lambda>c. c \<noteq> CHR ''-'') f))
         \<or> newDDLFile f = Failed (ErrRange ''Atoi'' (takeWhile (\<lambda>c. c \<noteq> CHR ''-'') f))"
proof -
  define pre where "pre = takeWhile (\<lambda>c. c \<noteq> CHR ''-'') f"
  define rest where "rest = tl (dropWhile (\<lambda>c. c \<noteq> CHR ''-'') f)"
  from assms(1) have "dropWhile (\<lambda>c. c \<noteq> CHR ''-'') f \<noteq> []"
    by simp
  moreover from this have "hd (dropWhile (\<lambda>c. c \<noteq> CHR ''-'') f) = CHR ''-''"
    using hd_dropWhile [of "\<lambda>c. c \<noteq> CHR ''-''" f] by simp
  ultimately have "dropWhile (\<lambda>c. c \<noteq> CHR ''-'') f = CHR ''-'' # rest"
    by (cases "dropWhile (\<lambda>c. c \<noteq> CHR ''-'') f") (simp_all add: rest_def)
  then have f: "f = pre @ ''-'' @ rest"
    using takeWhile_dropWhile_id [of "\<lambda>c. c \<noteq> CHR ''-''" f] by (simp add: pre_def)
  have "CHR ''-'' \<notin> set pre"
    unfolding pre_def by (auto dest: set_takeWhileD)
  from newDDLFile_split [OF this, of rest] Atoi_no_numeral [of pre] assms(2)
  show ?thesis
    unfolding f [symmetric] pre_def [symmetric] by auto
qed

text \<open>
  Claim C2 (the part that fails): a filename without the separator \<open>-\<close> should be refused
  with an error. In the code \<open>strings.Index\<close> returns \<open>-1\<close> for it and the slice
  expression \<open>f[:i]\<close> panics: newDDLFile returns nothing, neither a file nor an error.
\<close>

theorem newDDLFile_no_separator_panics:
  "CHR ''-'' \<notin> set f \<Longrightarrow> newDDLFile f = Panicked"
  using Index_absent [of "CHR ''-''" f]
  by (simp add: newDDLFile_def slice_to_def)

theorem newDDLFile_no_separator_panics_witness:
  "CHR ''-'' \<notin> set ''readme.sql'' \<and> newDDLFile ''readme.sql'' = Panicked"
  using newDDLFile_no_separator_panics [of "''readme.sql''"]
  by simp




section \<open>Connection strings\<close>

subsection \<open>Decimal output\<close>

lemma digit_nth: "k < 10 \<Longrightarrow> set [''0123456789'' ! k] \<subseteq> set ''0123456789''"
  using nth_mem [of k "''0123456789''"] by auto

lemma formatDigits_digits: "set (formatDigits n) \<subseteq> set ''0123456789''"
proof (induction n rule: formatDigits.induct)
  case (1 n)
  show ?case
  proof (cases "n < 10")
    case True
    have "formatDigits n = [''0123456789'' ! n]"
      using True by (subst formatDigits.simps) simp
    with digit_nth [OF True] show ?thesis
      by (simp only:)
  next
    case False
    have eq: "formatDigits n = formatDigits (n div 10) @ [''0123456789'' ! (n mod 10)]"
      using False by (subst formatDigits.simps) simp
    have "n mod 10 < 10" by simp
    from digit_nth [OF this] "1.IH" [OF False] show ?thesis
      unfolding eq set_append by (rule Un_least [rotated])
  qed
qed

lemma formatDigits_not_Nil: "formatDigits n \<noteq> []"
  by (subst formatDigits.simps) simp

lemma Itoa_not_Nil: "Itoa i \<noteq> []"
  by (simp add: Itoa_def formatDigits_not_Nil)

lemma Itoa_chars: "set (Itoa i) \<subseteq> set ''-0123456789''"
proof (cases "i < 0")
  case True
  then have "Itoa i = CHR ''-'' # formatDigits (nat (- i))"
    by (simp add: Itoa_def)
  with insert_mono [OF formatDigits_digits, of "CHR ''-''" "nat (- i)"] show ?thesis
    by simp
next
  case False
  then have "Itoa i = formatDigits (nat i)"
    by (simp add: Itoa_def)
  with subset_trans [OF formatDigits_digits set_subset_Cons, of "nat i" "CHR ''-''"]
  show ?thesis
    by (simp only:)
qed

lemma Itoa_0: "Itoa 0 = ''0''"
  by (simp add: Itoa_def formatDigits.simps)

lemma Itoa_5432: "Itoa 5432 = ''5432''"
  by (simp add: Itoa_def formatDigits.simps)

text \<open>Itoa writes the numeral that Atoi reads back.\<close>

lemma digit_nth_value: "k < 10 \<Longrightarrow> (of_char (''0123456789'' ! k) :: nat) = 48 + k"
proof -
  assume "k < 10"
  then have "k = 0 \<or> k = 1 \<or> k = 2 \<or> k = 3 \<or> k = 4 \<or> k = 5 \<or> k = 6 \<or> k = 7 \<or> k = 8 \<or> k = 9"
    by arith
  then show ?thesis
    by (elim disjE) simp_all
qed

lemma decimal_value_snoc:
  "decimal_value (cs @ [c]) = decimal_value cs * 10 + (of_char c - 48)"
  by (induction cs) (simp_all add: algebra_simps)

lemma decimal_value_formatDigits: "decimal_value (formatDigits n) = n"
proof (induction n rule: formatDigits.induct)
  case (1 n)
  show ?case
  proof (cases "n < 10")
    case True
    have "formatDigits n = [''0123456789'' ! n]"
      using True by (subst formatDigits.simps) simp
    with digit_nth_value [OF True] show ?thesis
      by simp
  next
    case False
    have eq: "formatDigits n = formatDigits (n div 10) @ [''0123456789'' ! (n mod 10)]"
      using False by (subst formatDigits.simps) simp
    have "n mod 10 < 10" by simp
    from digit_nth_value [OF this] "1.IH" [OF False] show ?thesis
      unfolding eq decimal_value_snoc by simp
  qed
qed

lemma Atoi_Itoa:
  assumes "0 \<le> i" and "i < 2 ^ (intSize - 1)"
  shows "Atoi (Itoa i) = Inr i"
proof -
  have "decimal_numeral (formatDigits (nat i))"
    by (simp add: decimal_numeral_def formatDigits_not_Nil formatDigits_digits del: set_simps)
  moreover from assms have "decimal_value (formatDigits (nat i)) < 2 ^ (intSize - 1)"
    by (simp add: decimal_value_formatDigits nat_less_iff)
  ultimately have "Atoi (formatDigits (nat i)) = Inr (int (decimal_value (formatDigits (nat i))))"
    by (rule Atoi_decimal)
  with assms(1) show ?thesis
    by (simp add: Itoa_def decimal_value_formatDigits)
qed

subsection \<open>Keyword/value form\<close>

text \<open>
  Claim C5: the keyword/value encoding is \<open>host=<host> port=<port> dbname=<name>
  user=<user>\<close>, then \<open> password=<password>\<close> exactly when the password is non-empty, then
  always \<open> sslmode=disable\<close>, then \<open> search_path=<searchPath>\<close> exactly when the search path
  is non-empty; and the configuration localhost, 5432, mydb, alice, no password, search
  path public gives exactly the string of the specification.
\<close>

theorem KeywordValueConnectionString_format:
  "KeywordValueConnectionString dsn =
     ''host='' @ Host dsn @ '' port='' @ Itoa (Port dsn) @ '' dbname='' @ DBName dsn
     @ '' user='' @ User dsn
     @ (if Password dsn \<noteq> [] then '' password='' @ Password dsn else [])
     @ '' sslmode=disable''
     @ (if SearchPath dsn \<noteq> [] then '' search_path='' @ SearchPath dsn else [])
   \<and> KeywordValueConnectionString
       \<lparr>Host = ''localhost'', Port = 5432, DBName = ''mydb'', SearchPath = ''public'',
        User = ''alice'', Password = []\<rparr>
     = ''host=localhost port=5432 dbname=mydb user=alice sslmode=disable search_path=public''"
  by (simp add: KeywordValueConnectionString_def Let_def Itoa_5432)

theorem KeywordValueConnectionString_format_witness:
  "KeywordValueConnectionString
       \<lparr>Host = ''localhost'', Port = 5432, DBName = ''mydb'', SearchPath = ''public'',
        User = ''alice'', Password = ''secret''\<rparr>
     = ''host=localhost port=5432 dbname=mydb user=alice password=secret sslmode=disable search_path=public''"
  using KeywordValueConnectionString_format
    [of "\<lparr>Host = ''localhost'', Port = 5432, DBName = ''mydb'', SearchPath = ''public'',
        User = ''alice'', Password = ''secret''\<rparr>"]
  by (simp add: Itoa_5432)

text \<open>
  Claim C10: the keyword/value encoding always has its \<open>port=<port>\<close> segment, right behind
  the host; for port zero the segment is \<open>port=0\<close>.
\<close>

theorem KeywordValueConnectionString_port:
  "(\<exists>rest. KeywordValueConnectionString dsn
        = ''host='' @ Host dsn @ '' port='' @ Itoa (Port dsn) @ '' dbname='' @ rest)
   \<and> (Port dsn = 0 \<longrightarrow>
        (\<exists>rest. KeywordValueConnectionString dsn
           = ''host='' @ Host dsn @ '' port=0 dbname='' @ rest))"
  by (simp add: KeywordValueConnectionString_def Let_def Itoa_0)

theorem KeywordValueConnectionString_port_witness:
  "Port \<lparr>Host = ''localhost'', Port = 0, DBName = ''mydb'', SearchPath = [],
         User = ''alice'', Password = []\<rparr> = 0
   \<and> (\<exists>rest. KeywordValueConnectionString
         \<lparr>Host = ''localhost'', Port = 0, DBName = ''mydb'', SearchPath = [],
          User = ''alice'', Password = []\<rparr>
       = ''host=localhost port=0 dbname='' @ rest)"
  using KeywordValueConnectionString_port
    [of "\<lparr>Host = ''localhost'', Port = 0, DBName = ''mydb'', SearchPath = [],
         User = ''alice'', Password = []\<rparr>"]
  by simp

subsection \<open>URI form\<close>

lemma escape_Nil: "escape [] mode = []"
  by (simp add: escape_def)

lemma escape_Cons: "escape (c # s) mode = escapeByte mode c @ escape s mode"
  by (simp add: escape_def)

lemma escape_append: "escape (s @ t) mode = escape s mode @ escape t mode"
  by (simp add: escape_def)

lemma escapeByte_not_Nil: "escapeByte mode c \<noteq> []"
  by (simp add: escapeByte_def)

lemma escape_eq_Nil_iff: "(escape s mode = []) = (s = [])"
  by (cases s) (simp_all add: escape_Nil escape_Cons escapeByte_not_Nil)

text \<open>The bytes that Itoa writes stay as they are in the host part, and so does the colon.\<close>

lemma escapeByte_host_decimal:
  assumes "c \<in> set ''-0123456789''"
  shows "escapeByte encodeHost c = [c]"
proof -
  from assms have "c = CHR ''-'' \<or> c = CHR ''0'' \<or> c = CHR ''1'' \<or> c = CHR ''2'' \<or> c = CHR ''3''
      \<or> c = CHR ''4'' \<or> c = CHR ''5'' \<or> c = CHR ''6'' \<or> c = CHR ''7'' \<or> c = CHR ''8''
      \<or> c = CHR ''9''"
    by simp
  then show ?thesis
    by (elim disjE) (simp_all add: escapeByte_def shouldEscape_def isAlnum_def)
qed

lemma escape_host_decimal: "set s \<subseteq> set ''-0123456789'' \<Longrightarrow> escape s encodeHost = s"
proof (induction s)
  case Nil
  show ?case by (rule escape_Nil)
next
  case (Cons c s)
  have "c \<in> set (c # s)" by simp
  with Cons.prems have "c \<in> set ''-0123456789''" by (rule subsetD)
  moreover from set_subset_Cons Cons.prems have "set s \<subseteq> set ''-0123456789''"
    by (rule subset_trans)
  ultimately show ?case using Cons.IH
    by (simp only: escape_Cons escapeByte_host_decimal append_Cons append_Nil)
qed

lemma escape_host_Itoa: "escape (Itoa i) encodeHost = Itoa i"
  by (rule escape_host_decimal) (rule Itoa_chars)

lemma escapeByte_host_colon: "escapeByte encodeHost CHR '':'' = '':''"
  by (simp add: escapeByte_def shouldEscape_def isAlnum_def)

lemma QueryEscape_options: "QueryEscape ''options'' = ''options''"
  by (simp add: QueryEscape_def escape_def escapeByte_def shouldEscape_def isAlnum_def)

lemma QueryEscape_search_path:
  "QueryEscape (''-csearch_path='' @ s) = ''-csearch_path%3D'' @ escape s encodeQueryComponent"
proof -
  have "escape ''-csearch_path='' encodeQueryComponent = ''-csearch_path%3D''"
    by (simp add: escape_def escapeByte_def shouldEscape_def isAlnum_def)
  then show ?thesis
    by (simp only: QueryEscape_def escape_append)
qed

text \<open>A slash at the front of a path is kept, and escaping puts none there.\<close>

lemma escapeByte_path_slash: "escapeByte encodePath CHR ''/'' = ''/''"
  by (simp add: escapeByte_def shouldEscape_def isAlnum_def)

lemma hd_escapeByte: "c \<noteq> CHR ''/'' \<Longrightarrow> hd (escapeByte mode c) \<noteq> CHR ''/''"
  by (simp add: escapeByte_def)

lemma hd_escape_path:
  assumes "s \<noteq> []"
  shows "(hd (escape s encodePath) = CHR ''/'') = (hd s = CHR ''/'')"
proof (cases s)
  case Nil
  with assms show ?thesis by simp
next
  case (Cons c cs)
  show ?thesis
  proof (cases "c = CHR ''/''")
    case True
    with Cons show ?thesis
      by (simp add: escape_Cons escapeByte_path_slash)
  next
    case False
    from hd_escapeByte [OF this, of encodePath] False Cons show ?thesis
      by (simp add: escape_Cons escapeByte_not_Nil)
  qed
qed

lemma Values_Encode_Set:
  "Values_Encode (Values_Set [] key val) = QueryEscape key @ ''='' @ QueryEscape val"
  by (simp add: Values_Encode_def Values_Set_def)

lemma Values_Encode_options:
  "Values_Encode (Values_Set [] ''options'' (''-csearch_path='' @ s))
     = ''options=-csearch_path%3D'' @ escape s encodeQueryComponent"
  unfolding Values_Encode_Set QueryEscape_options QueryEscape_search_path
  by simp

lemma EscapedPath_hd:
  assumes "URL_Path u \<noteq> []"
  shows "EscapedPath u \<noteq> [] \<and> (hd (EscapedPath u) = CHR ''/'') = (hd (URL_Path u) = CHR ''/'')"
  using assms hd_escape_path [OF assms]
  by (simp add: EscapedPath_def escape_eq_Nil_iff)

lemma EscapedPath_Nil: "URL_Path u = [] \<Longrightarrow> EscapedPath u = []"
  by (simp add: EscapedPath_def escape_Nil)

text \<open>What \<open>String\<close> writes for a URL with a scheme and user information.\<close>

lemma URL_String_user:
  assumes "URL_Scheme u \<noteq> []" and "URL_User u = Some ui"
  shows "URL_String u =
     URL_Scheme u @ ''://'' @ Userinfo_String ui @ ''@'' @ escape (URL_Host u) encodeHost
     @ (if URL_Host u \<noteq> [] \<and> URL_Path u \<noteq> [] \<and> hd (URL_Path u) \<noteq> CHR ''/'' then ''/'' else [])
     @ EscapedPath u
     @ (if URL_RawQuery u \<noteq> [] then ''?'' @ URL_RawQuery u else [])"
proof (cases "URL_Path u = []")
  case True
  with assms EscapedPath_Nil [OF True] show ?thesis
    by (simp add: URL_String_def Let_def escape_Nil)
next
  case False
  with assms EscapedPath_hd [OF False] show ?thesis
    by (simp add: URL_String_def Let_def escape_Nil)
qed

lemma ConnectionURI_parts:
  "ConnectionURI dsn =
     ''postgresql://'' @ escape (User dsn) encodeUserPassword @ ''@''
     @ escape (Host dsn) encodeHost
     @ (if Port dsn \<noteq> 0 then '':'' @ Itoa (Port dsn) else [])
     @ (if (Host dsn \<noteq> [] \<or> Port dsn \<noteq> 0) \<and> DBName dsn \<noteq> [] \<and> hd (DBName dsn) \<noteq> CHR ''/''
        then ''/'' else [])
     @ (if DBName dsn = ''*'' then ''*'' else escape (DBName dsn) encodePath)
     @ (if SearchPath dsn \<noteq> []
        then ''?options=-csearch_path%3D'' @ escape (SearchPath dsn) encodeQueryComponent
        else [])"
proof -
  define h where "h = (if Port dsn \<noteq> 0 then Host dsn @ '':'' @ Itoa (Port dsn) else Host dsn)"
  define q where "q = (if SearchPath dsn \<noteq> []
      then ''options=-csearch_path%3D'' @ escape (SearchPath dsn) encodeQueryComponent else [])"
  define u where "u = \<lparr>URL_Scheme = ''postgresql'', URL_User = Some (url_User (User dsn)),
      URL_Host = h, URL_Path = DBName dsn, URL_RawQuery = q\<rparr>"
  have uri: "ConnectionURI dsn = URL_String u"
    unfolding ConnectionURI_def Let_def Values_Encode_options
    by (simp add: u_def h_def q_def)
  have host: "escape h encodeHost
      = escape (Host dsn) encodeHost @ (if Port dsn \<noteq> 0 then '':'' @ Itoa (Port dsn) else [])"
    by (simp add: h_def escape_append escape_Cons escapeByte_host_colon escape_host_Itoa)
  have h_Nil: "(h \<noteq> []) = (Host dsn \<noteq> [] \<or> Port dsn \<noteq> 0)"
    by (simp add: h_def)
  have user: "Userinfo_String (url_User (User dsn)) = escape (User dsn) encodeUserPassword"
    by (simp add: Userinfo_String_def url_User_def)
  have "URL_String u =
     URL_Scheme u @ ''://'' @ Userinfo_String (url_User (User dsn)) @ ''@''
     @ escape (URL_Host u) encodeHost
     @ (if URL_Host u \<noteq> [] \<and> URL_Path u \<noteq> [] \<and> hd (URL_Path u) \<noteq> CHR ''/'' then ''/'' else [])
     @ EscapedPath u
     @ (if URL_RawQuery u \<noteq> [] then ''?'' @ URL_RawQuery u else [])"
    by (rule URL_String_user) (simp_all add: u_def)
  also have "\<dots> =
     ''postgresql://'' @ escape (User dsn) encodeUserPassword @ ''@''
     @ escape h encodeHost
     @ (if h \<noteq> [] \<and> DBName dsn \<noteq> [] \<and> hd (DBName dsn) \<noteq> CHR ''/'' then ''/'' else [])
     @ (if DBName dsn = ''*'' then ''*'' else escape (DBName dsn) encodePath)
     @ (if q \<noteq> [] then ''?'' @ q else [])"
    by (simp add: u_def user EscapedPath_def)
  also have "(if q \<noteq> [] then ''?'' @ q else [])
      = (if SearchPath dsn \<noteq> []
         then ''?options=-csearch_path%3D'' @ escape (SearchPath dsn) encodeQueryComponent
         else [])"
    by (simp add: q_def)
  finally show ?thesis
    unfolding uri host h_Nil by simp
qed

text \<open>
  Claim C6, amended: the URI encoding is \<open>postgresql://<user>@<host>[:<port>][/]<name>\<close>
  \<open>[?options=-csearch_path%3D<searchPath>]\<close>, where user, host, name and search path are
  written percent-encoded by the rules of net/url for their part of the URL (and the name
  \<open>*\<close> as it is); \<open>:<port>\<close> is there exactly when the port is non-zero, the options
  parameter exactly when the search path is non-empty, and the slash in front of the name
  exactly when the host portion is non-empty and the name is non-empty and does not begin
  with a slash itself. The password has no influence on the result.
\<close>

theorem ConnectionURI_shape:
  "ConnectionURI dsn =
     ''postgresql://'' @ escape (User dsn) encodeUserPassword @ ''@''
     @ escape (Host dsn) encodeHost
     @ (if Port dsn \<noteq> 0 then '':'' @ Itoa (Port dsn) else [])
     @ (if (Host dsn \<noteq> [] \<or> Port dsn \<noteq> 0) \<and> DBName dsn \<noteq> [] \<and> hd (DBName dsn) \<noteq> CHR ''/''
        then ''/'' else [])
     @ (if DBName dsn = ''*'' then ''*'' else escape (DBName dsn) encodePath)
     @ (if SearchPath dsn \<noteq> []
        then ''?options=-csearch_path%3D'' @ escape (SearchPath dsn) encodeQueryComponent
        else [])
   \<and> ConnectionURI (dsn\<lparr>Password := p\<rparr>) = ConnectionURI dsn"
proof
  show "ConnectionURI (dsn\<lparr>Password := p\<rparr>) = ConnectionURI dsn"
    by (simp add: ConnectionURI_def Let_def)
qed (rule ConnectionURI_parts)

text \<open>Escaping leaves the names of the examples as they are.\<close>

lemma escape_examples:
  "escape ''alice'' encodeUserPassword = ''alice''"
  "escape ''localhost'' encodeHost = ''localhost''"
  "escape ''mydb'' encodePath = ''mydb''"
  "escape ''/mydb'' encodePath = ''/mydb''"
  "escape ''public'' encodeQueryComponent = ''public''"
  by (simp_all add: escape_def escapeByte_def shouldEscape_def isAlnum_def)

theorem ConnectionURI_shape_witness:
  "ConnectionURI \<lparr>Host = ''localhost'', Port = 5432, DBName = ''mydb'', SearchPath = ''public'',
       User = ''alice'', Password = ''secret''\<rparr>
     = ''postgresql://alice@localhost:5432/mydb?options=-csearch_path%3Dpublic''
   \<and> ConnectionURI \<lparr>Host = ''localhost'', Port = 0, DBName = ''mydb'', SearchPath = [],
       User = ''alice'', Password = ''secret''\<rparr>
     = ''postgresql://alice@localhost/mydb''"
  using ConnectionURI_shape
      [of "\<lparr>Host = ''localhost'', Port = 5432, DBName = ''mydb'', SearchPath = ''public'',
            User = ''alice'', Password = ''secret''\<rparr>" "[]"]
    ConnectionURI_shape
      [of "\<lparr>Host = ''localhost'', Port = 0, DBName = ''mydb'', SearchPath = [],
            User = ''alice'', Password = ''secret''\<rparr>" "[]"]
  by (simp add: escape_examples Itoa_5432)

text \<open>
  Claim C6 as stated fails: it puts a slash between the host portion and the name for
  every configuration. With an empty host and port zero \<open>String\<close> writes no slash, and the
  name stands where the host would; with a name that begins with a slash it adds none.
\<close>

theorem ConnectionURI_shape_counterexample:
  "ConnectionURI \<lparr>Host = [], Port = 0, DBName = ''mydb'', SearchPath = ''public'',
       User = ''alice'', Password = []\<rparr>
     = ''postgresql://alice@mydb?options=-csearch_path%3Dpublic''
   \<and> ConnectionURI \<lparr>Host = ''localhost'', Port = 5432, DBName = ''/mydb'', SearchPath = ''public'',
       User = ''alice'', Password = []\<rparr>
     = ''postgresql://alice@localhost:5432/mydb?options=-csearch_path%3Dpublic''"
  by (simp add: ConnectionURI_parts escape_examples escape_Nil Itoa_5432)

section \<open>The sort\<close>

subsection \<open>Swap, Less and rearrangements\<close>

lemma length_Swap: "length (Swap data i j) = length data"
  by (simp add: Swap_def)

lemma nth_Swap:
  assumes "i < length data" "j < length data" "k < length data"
  shows "Swap data i j ! k = (if k = j then data ! i else if k = i then data ! j else data ! k)"
  using assms by (simp add: Swap_def nth_list_update)

lemma key_Swap:
  assumes "i < length data" "j < length data" "k < length data"
  shows "keyAt (Swap data i j) k = (if k = j then keyAt data i else if k = i then keyAt data j else keyAt data k)"
  using nth_Swap [OF assms] by (simp add: keyAt_def)

lemma Less_key: "Less data i j = (keyAt data i < keyAt data j)"
  by (simp add: Less_def keyAt_def)

lemma mset_Swap:
  assumes "i < length data" "j < length data"
  shows "mset (Swap data i j) = mset data"
  using assms by (simp add: Swap_def mset_swap)

lemma Swap_same: "i < length data \<Longrightarrow> Swap data i i = data"
  by (simp add: Swap_def)

lemma perm_in_refl: "perm_in a b xs xs"
  by (simp add: perm_in_def)

lemma perm_in_trans:
  assumes "perm_in a b xs ys" "perm_in a b ys zs"
  shows "perm_in a b xs zs"
  using assms by (auto simp: perm_in_def)

lemma perm_in_mono:
  assumes "perm_in a b xs ys" "a' \<le> a" "b \<le> b'"
  shows "perm_in a' b' xs ys"
  using assms by (auto simp: perm_in_def)

lemma perm_in_length: "perm_in a b xs ys \<Longrightarrow> length ys = length xs"
  by (simp add: perm_in_def)

lemma perm_in_mset: "perm_in a b xs ys \<Longrightarrow> mset ys = mset xs"
  by (simp add: perm_in_def)

lemma perm_in_nth:
  assumes "perm_in a b xs ys" "i < length xs" "i < a \<or> b \<le> i"
  shows "ys ! i = xs ! i"
  using assms by (auto simp: perm_in_def)

lemma perm_in_key:
  assumes "perm_in a b xs ys" "i < length xs" "i < a \<or> b \<le> i"
  shows "keyAt ys i = keyAt xs i"
  using perm_in_nth [OF assms] by (simp add: keyAt_def)

lemma perm_in_Swap:
  assumes "a \<le> i" "i < b" "a \<le> j" "j < b" "b \<le> length xs"
  shows "perm_in a b xs (Swap xs i j)"
  using assms by (auto simp: perm_in_def length_Swap mset_Swap nth_Swap)

text \<open>The elements between \<open>a\<close> and \<open>b\<close> stay the same ones.\<close>

lemma perm_in_take:
  assumes "perm_in a b xs ys"
  shows "take a ys = take a xs"
  using assms by (intro nth_equalityI) (auto simp: perm_in_def)

lemma perm_in_drop:
  assumes "perm_in a b xs ys"
  shows "drop b ys = drop b xs"
  using assms by (intro nth_equalityI) (auto simp: perm_in_def)

lemma perm_in_segment:
  assumes "perm_in a b xs ys" "a \<le> b"
  shows "mset (drop a (take b ys)) = mset (drop a (take b xs))"
proof -
  have split: "mset zs = mset (take a zs) + mset (drop a (take b zs)) + mset (drop b zs)" for zs :: byFileNumber
  proof -
    have "take a (take b zs) @ drop a (take b zs) = take b zs"
      by (rule append_take_drop_id)
    moreover from assms(2) have "take a (take b zs) = take a zs" by (simp add: min_def)
    ultimately have "take b zs = take a zs @ drop a (take b zs)" by simp
    moreover have "take b zs @ drop b zs = zs" by (rule append_take_drop_id)
    ultimately have "zs = (take a zs @ drop a (take b zs)) @ drop b zs" by simp
    then have "mset zs = mset ((take a zs @ drop a (take b zs)) @ drop b zs)" by simp
    then show ?thesis by (simp only: mset_append)
  qed
  from split [of xs] split [of ys] perm_in_take [OF assms(1)] perm_in_drop [OF assms(1)]
    perm_in_mset [OF assms(1)]
  show ?thesis by simp
qed

lemma segment_nth:
  assumes "x \<in> set (drop a (take b xs))"
  shows "\<exists>i. a \<le> i \<and> i < b \<and> i < length xs \<and> x = xs ! i"
proof -
  from assms obtain k where k: "k < length (drop a (take b xs))" "drop a (take b xs) ! k = x"
    by (auto simp: in_set_conv_nth)
  then have "a + k < b" "a + k < length xs" by auto
  moreover from k this have "x = xs ! (a + k)" by auto
  ultimately show ?thesis by (intro exI [of _ "a + k"]) simp
qed

lemma nth_segment:
  assumes "a \<le> i" "i < b" "i < length xs"
  shows "xs ! i \<in> set (drop a (take b xs))"
proof -
  from assms have "i - a < length (drop a (take b xs))" by auto
  moreover from assms have "drop a (take b xs) ! (i - a) = xs ! i" by auto
  ultimately show ?thesis by (metis nth_mem)
qed

lemma perm_in_elem:
  assumes "perm_in a b xs ys" "a \<le> i" "i < b" "b \<le> length xs"
  shows "\<exists>i'. a \<le> i' \<and> i' < b \<and> ys ! i = xs ! i'"
proof -
  from assms have "a \<le> b" by simp
  from perm_in_segment [OF assms(1) this]
  have "set (drop a (take b ys)) = set (drop a (take b xs))"
    by (rule mset_eq_setD)
  moreover from assms perm_in_length [OF assms(1)] have "ys ! i \<in> set (drop a (take b ys))"
    by (intro nth_segment) simp_all
  ultimately have "ys ! i \<in> set (drop a (take b xs))" by simp
  from segment_nth [OF this] show ?thesis by blast
qed

lemma perm_in_key_elem:
  assumes "perm_in a b xs ys" "a \<le> i" "i < b" "b \<le> length xs"
  shows "\<exists>i'. a \<le> i' \<and> i' < b \<and> keyAt ys i = keyAt xs i'"
  using perm_in_elem [OF assms] by (auto simp: keyAt_def)

lemma perm_in_sym:
  assumes "perm_in a b xs ys"
  shows "perm_in a b ys xs"
  using assms by (auto simp: perm_in_def)

lemma lower_ok_perm:
  assumes "lower_ok xs a b" "perm_in a b xs ys" "b \<le> length xs"
  shows "lower_ok ys a b"
  unfolding lower_ok_def
proof (intro allI impI)
  fix i j
  assume ij: "i < a \<and> a \<le> j \<and> j < b"
  with perm_in_key_elem [OF assms(2), of j] assms(3) obtain j'
    where j': "a \<le> j'" "j' < b" "keyAt ys j = keyAt xs j'" by auto
  from ij assms(3) have "keyAt ys i = keyAt xs i"
    by (intro perm_in_key [OF assms(2)]) auto
  with j' ij assms(1) show "keyAt ys i \<le> keyAt ys j"
    by (auto simp: lower_ok_def)
qed

lemma sorted_in_whole:
  assumes "sorted_in 0 (length data) data"
  shows "sorted (map fileNumber data)"
  using assms by (auto simp: sorted_in_def sorted_iff_nth_mono_less keyAt_def)


lemma sorted_in_small: "b \<le> a + 1 \<Longrightarrow> sorted_in a b data"
  by (auto simp: sorted_in_def)

lemma sorted_inI:
  assumes "\<And>p q. a \<le> p \<Longrightarrow> p < q \<Longrightarrow> q < b \<Longrightarrow> keyAt data p \<le> keyAt data q"
  shows "sorted_in a b data"
  using assms by (simp add: sorted_in_def)

lemma sorted_inD:
  assumes "sorted_in a b data" "a \<le> p" "p \<le> q" "q < b"
  shows "keyAt data p \<le> keyAt data q"
  using assms by (cases "p = q") (auto simp: sorted_in_def)

lemma sorted_in_sub:
  assumes "sorted_in a b data" "a \<le> a'" "b' \<le> b"
  shows "sorted_in a' b' data"
  using assms by (auto simp: sorted_in_def)

lemma sorted_in_perm_outside:
  assumes "sorted_in a b xs" "perm_in a' b' xs ys" "b \<le> length xs" "b \<le> a' \<or> b' \<le> a"
  shows "sorted_in a b ys"
proof (rule sorted_inI)
  fix p q
  assume pq: "a \<le> p" "p < q" "q < b"
  with assms(3,4) have "keyAt ys p = keyAt xs p" "keyAt ys q = keyAt xs q"
    by (auto intro!: perm_in_key [OF assms(2)])
  with sorted_inD [OF assms(1), of p q] pq show "keyAt ys p \<le> keyAt ys q"
    by simp
qed

subsection \<open>Insertion sort\<close>

text \<open>
  The inner loop: the elements from \<open>a\<close> to \<open>i\<close> are in order but for the one at \<open>j\<close>,
  which may be too far up; the loop puts it in its place.
\<close>

lemma insertionSort_down_correct:
  assumes "a \<le> j" "j \<le> i" "i < length data"
    and "sorted_in a j data" "sorted_in j (i + 1) data"
    and "\<And>p q. a \<le> p \<Longrightarrow> p < j \<Longrightarrow> j < q \<Longrightarrow> q \<le> i \<Longrightarrow> keyAt data p \<le> keyAt data q"
  shows "perm_in a (i + 1) data (insertionSort_down data a j)
         \<and> sorted_in a (i + 1) (insertionSort_down data a j)"
  using assms
proof (induction data a j rule: insertionSort_down.induct)
  case (1 data a j)
  note s1 = \<open>sorted_in a j data\<close> and s2 = \<open>sorted_in j (i + 1) data\<close>
  note cross = "1.prems"(6)
  show ?case
  proof (cases "a < j \<and> Less data j (j - 1)")
    case go: True
    define d' where "d' = Swap data j (j - 1)"
    from go "1.prems" have j: "j < length data" "j - 1 < length data" "0 < j" by auto
    have k: "keyAt d' k = (if k = j - 1 then keyAt data j else if k = j then keyAt data (j - 1)
        else keyAt data k)" if "k < length data" for k
      unfolding d'_def using key_Swap [OF j(1,2) that] by auto
    from go have lt: "keyAt data j < keyAt data (j - 1)" by (simp add: Less_key)
    from go have aj: "a \<le> j - 1" by auto
    have len: "length d' = length data" by (simp add: d'_def length_Swap)
    have p: "perm_in a (i + 1) data d'"
      unfolding d'_def using go "1.prems" by (intro perm_in_Swap) auto
    have n1: "sorted_in a (j - 1) d'"
    proof (rule sorted_inI)
      fix p q assume "a \<le> p" "p < q" "q < j - 1"
      with sorted_inD [OF s1, of p q] k [of p] k [of q] j show "keyAt d' p \<le> keyAt d' q"
        by auto
    qed
    have n2: "sorted_in (j - 1) (i + 1) d'"
    proof (rule sorted_inI)
      fix p q assume pq: "j - 1 \<le> p" "p < q" "q < i + 1"
      with "1.prems" have q: "q < length data" "p < length data" by auto
      show "keyAt d' p \<le> keyAt d' q"
      proof (cases "p = j - 1")
        case True
        show ?thesis
        proof (cases "q = j")
          case True
          with \<open>p = j - 1\<close> k [of p] k [of q] q lt j show ?thesis by auto
        next
          case False
          with pq \<open>p = j - 1\<close> j have "j < q" by auto
          with sorted_inD [OF s2, of j q] pq have "keyAt data j \<le> keyAt data q" by auto
          with \<open>p = j - 1\<close> \<open>j < q\<close> k [of p] k [of q] q j show ?thesis by auto
        qed
      next
        case False
        with pq have pj: "j \<le> p" by auto
        show ?thesis
        proof (cases "p = j")
          case True
          with pq j aj "1.prems" have "keyAt data (j - 1) \<le> keyAt data q"
            by (intro cross) auto
          with True pq k [of p] k [of q] q j show ?thesis by auto
        next
          case False
          with pj pq sorted_inD [OF s2, of p q] k [of p] k [of q] q j show ?thesis by auto
        qed
      qed
    qed
    have n3: "keyAt d' p \<le> keyAt d' q" if "a \<le> p" "p < j - 1" "j - 1 < q" "q \<le> i" for p q
    proof (cases "q = j")
      case True
      with that sorted_inD [OF s1, of p "j - 1"] j have "keyAt data p \<le> keyAt data (j - 1)" by auto
      with True that k [of p] k [of q] j show ?thesis by auto
    next
      case False
      with that have "j < q" by auto
      with that cross [of p q] have "keyAt data p \<le> keyAt data q" by auto
      with that \<open>j < q\<close> k [of p] k [of q] j "1.prems" show ?thesis by auto
    qed
    from go "1.prems" len have "a \<le> j - 1" "j - 1 \<le> i" "i < length d'" by auto
    from "1.IH" [OF go, folded d'_def, OF this n1 n2 n3]
    have "perm_in a (i + 1) d' (insertionSort_down d' a (j - 1))"
      and "sorted_in a (i + 1) (insertionSort_down d' a (j - 1))"
      by simp_all
    moreover have "insertionSort_down data a j = insertionSort_down d' a (j - 1)"
      using go by (subst insertionSort_down.simps) (simp add: d'_def)
    ultimately show ?thesis
      using perm_in_trans [OF p] by auto
  next
    case False
    then have eq: "insertionSort_down data a j = data"
      by (subst insertionSort_down.simps) auto
    have "sorted_in a (i + 1) data"
    proof (rule sorted_inI)
      fix p q assume pq: "a \<le> p" "p < q" "q < i + 1"
      show "keyAt data p \<le> keyAt data q"
      proof (cases "q < j")
        case True
        with pq sorted_inD [OF s1, of p q] show ?thesis by auto
      next
        case qj: False
        show ?thesis
        proof (cases "j \<le> p")
          case True
          with pq sorted_inD [OF s2, of p q] show ?thesis by auto
        next
          case pj: False
          with pq have "a < j" by auto
          with False have le: "keyAt data (j - 1) \<le> keyAt data j" by (simp add: Less_key)
          from pj pq sorted_inD [OF s1, of p "j - 1"] have "keyAt data p \<le> keyAt data (j - 1)"
            by auto
          with le have pj': "keyAt data p \<le> keyAt data j" by auto
          show ?thesis
          proof (cases "q = j")
            case True
            with pj' show ?thesis by auto
          next
            case False
            with qj pj pq cross [of p q] show ?thesis by auto
          qed
        qed
      qed
    qed
    with eq show ?thesis by (simp add: perm_in_refl)
  qed
qed

lemma insertionSort_from_correct:
  assumes "a < i" "b \<le> length data" "sorted_in a i data"
  shows "perm_in a b data (insertionSort_from data a b i)
         \<and> (i \<le> b \<longrightarrow> sorted_in a b (insertionSort_from data a b i))"
  using assms
proof (induction data a b i rule: insertionSort_from.induct)
  case (1 data a b i)
  show ?case
  proof (cases "i < b")
    case True
    define d' where "d' = insertionSort_down data a i"
    from True "1.prems" have "i < length data" by auto
    from insertionSort_down_correct [of a i i data] "1.prems" this
    have d': "perm_in a (i + 1) data d'" "sorted_in a (i + 1) d'"
      by (simp_all add: d'_def sorted_in_small)
    from d'(1) have len: "length d' = length data" by (rule perm_in_length)
    have p: "perm_in a b data d'"
      using perm_in_mono [OF d'(1), of a b] True by simp
    from "1.IH" [OF True, folded d'_def] "1.prems" len d'(2) True
    have "perm_in a b d' (insertionSort_from d' a b (i + 1))"
      and "sorted_in a b (insertionSort_from d' a b (i + 1))"
      by simp_all
    moreover have "insertionSort_from data a b i = insertionSort_from d' a b (i + 1)"
      using True by (subst insertionSort_from.simps) (simp add: d'_def)
    ultimately show ?thesis
      using perm_in_trans [OF p] by auto
  next
    case False
    then have "insertionSort_from data a b i = data"
      by (subst insertionSort_from.simps) auto
    moreover from False "1.prems" have "i \<le> b \<longrightarrow> sorted_in a b data"
      by auto
    ultimately show ?thesis by (simp add: perm_in_refl)
  qed
qed

lemma insertionSort_correct:
  assumes "b \<le> length data"
  shows "perm_in a b data (insertionSort data a b) \<and> sorted_in a b (insertionSort data a b)"
proof (cases "a + 1 \<le> b")
  case True
  from insertionSort_from_correct [of a "a + 1" b data] assms True show ?thesis
    by (simp add: insertionSort_def sorted_in_small)
next
  case False
  then have "insertionSort data a b = data"
    unfolding insertionSort_def by (subst insertionSort_from.simps) auto
  with False show ?thesis
    by (simp add: perm_in_refl sorted_in_small)
qed



subsection \<open>Heap sort\<close>

lemma child_less: "child c p \<Longrightarrow> p < c"
  by (auto simp: child_def)

lemma child_unique: "child c p \<Longrightarrow> child c p' \<Longrightarrow> p = p'"
  by (auto simp: child_def)

lemma child_parent: "0 < c \<Longrightarrow> child c ((c - 1) div 2)"
  unfolding child_def by presburger

text \<open>
  The loop of siftDown: every node from \<open>lo\<close> on is at least its children, but for
  \<open>root\<close>; and the children of \<open>root\<close> are at most the parent of \<open>root\<close>.
\<close>

lemma siftDown_from_correct:
  assumes "lo \<le> root" "first + hi \<le> length data"
    and "\<And>p c. lo \<le> p \<Longrightarrow> p \<noteq> root \<Longrightarrow> c < hi \<Longrightarrow> child c p \<Longrightarrow>
           keyAt data (first + c) \<le> keyAt data (first + p)"
    and "\<And>p c. lo \<le> p \<Longrightarrow> child root p \<Longrightarrow> child c root \<Longrightarrow> c < hi \<Longrightarrow>
           keyAt data (first + c) \<le> keyAt data (first + p)"
  shows "heap_ok (siftDown_from data hi first root) first lo hi
         \<and> perm_in (first + lo) (first + hi) data (siftDown_from data hi first root)"
  using assms
proof (induction data hi first root rule: siftDown_from.induct)
  case (1 data hi first root)
  note inv1 = "1.prems"(3) and inv2 = "1.prems"(4)
  define c0 where "c0 = 2 * root + 1"
  define cs where "cs = (if c0 + 1 < hi \<and> Less data (first + c0) (first + c0 + 1) then c0 + 1 else c0)"
  have eq: "siftDown_from data hi first root =
      (if hi \<le> c0 then data
       else if \<not> Less data (first + root) (first + cs) then data
       else siftDown_from (Swap data (first + root) (first + cs)) hi first cs)"
    by (subst siftDown_from.simps) (simp add: Let_def c0_def cs_def)
  show ?case
  proof (cases "hi \<le> c0")
    case True
    have "heap_ok data first lo hi"
      unfolding heap_ok_def
    proof (intro allI impI)
      fix p c assume pc: "lo \<le> p \<and> c < hi \<and> child c p"
      with True have "p \<noteq> root" by (auto simp: child_def c0_def)
      with pc inv1 [of p c] show "keyAt data (first + c) \<le> keyAt data (first + p)" by simp
    qed
    with True eq show ?thesis by (simp add: perm_in_refl)
  next
    case inside: False
    then have cs: "child cs root" "cs < hi" "root < cs"
      by (auto simp: cs_def c0_def child_def)
    have cmax: "keyAt data (first + c) \<le> keyAt data (first + cs)" if "child c root" "c < hi" for c
      using that inside by (auto simp: cs_def c0_def child_def Less_key)
    show ?thesis
    proof (cases "Less data (first + root) (first + cs)")
      case False
      have "heap_ok data first lo hi"
        unfolding heap_ok_def
      proof (intro allI impI)
        fix p c assume pc: "lo \<le> p \<and> c < hi \<and> child c p"
        show "keyAt data (first + c) \<le> keyAt data (first + p)"
        proof (cases "p = root")
          case True
          with pc cmax [of c] False show ?thesis by (auto simp: Less_key)
        next
          case False
          with pc inv1 [of p c] show ?thesis by simp
        qed
      qed
      with False inside eq show ?thesis by (simp add: perm_in_refl)
    next
      case go: True
      define d' where "d' = Swap data (first + root) (first + cs)"
      from cs "1.prems" have r: "first + root < length data" "first + cs < length data"
        by auto
      have k: "keyAt d' (first + x) = (if x = cs then keyAt data (first + root)
          else if x = root then keyAt data (first + cs) else keyAt data (first + x))"
        if "first + x < length data" for x
        unfolding d'_def using key_Swap [OF r that] by simp
      have len: "length d' = length data" by (simp add: d'_def length_Swap)
      from go have lt: "keyAt data (first + root) < keyAt data (first + cs)" by (simp add: Less_key)
      have p: "perm_in (first + lo) (first + hi) data d'"
        unfolding d'_def using cs "1.prems" by (intro perm_in_Swap) auto
      have n1: "keyAt d' (first + c) \<le> keyAt d' (first + p)"
        if "lo \<le> p" "p \<noteq> cs" "c < hi" "child c p" for p c
      proof -
        from that child_less [of c p] "1.prems" have in_range:
          "first + c < length data" "first + p < length data" by auto
        show ?thesis
        proof (cases "p = root")
          case True
          with that cs have "c \<noteq> root" by (auto dest: child_less)
          with True that cmax [of c] lt k [of c] k [of p] in_range cs show ?thesis
            by auto
        next
          case False
          show ?thesis
          proof (cases "c = root")
            case True
            with that cs inv2 [of p cs] have "keyAt data (first + cs) \<le> keyAt data (first + p)"
              by simp
            with True False that k [of c] k [of p] in_range cs show ?thesis by auto
          next
            case croot: False
            from that False cs have "c \<noteq> cs" by (auto dest: child_unique)
            with croot False that inv1 [of p c] k [of c] k [of p] in_range show ?thesis
              by auto
          qed
        qed
      qed
      have n2: "keyAt d' (first + c) \<le> keyAt d' (first + p)"
        if "lo \<le> p" "child cs p" "child c cs" "c < hi" for p c
      proof -
        from that cs have pr: "p = root" by (auto dest: child_unique)
        from that cs child_less [of c cs] have c: "c \<noteq> root" "c \<noteq> cs" "lo \<le> cs"
          using "1.prems"(1) by auto
        from that "1.prems" r have in_range: "first + c < length data" by auto
        from c that inv1 [of cs c] cs have "keyAt data (first + c) \<le> keyAt data (first + cs)"
          by auto
        with pr c k [of c] k [of root] in_range r cs show ?thesis by auto
      qed
      from cs "1.prems" len have "lo \<le> cs" "first + hi \<le> length d'" by auto
      from "1.IH" [OF c0_def inside cs_def, folded d'_def, OF _ this n1 n2] go
      have "heap_ok (siftDown_from d' hi first cs) first lo hi"
        and "perm_in (first + lo) (first + hi) d' (siftDown_from d' hi first cs)"
        by simp_all
      with go inside eq perm_in_trans [OF p] show ?thesis
        by (simp add: d'_def)
    qed
  qed
qed

lemma siftDown_correct:
  assumes "first + hi \<le> length data" "heap_ok data first (lo + 1) hi"
  shows "heap_ok (siftDown data lo hi first) first lo hi
         \<and> perm_in (first + lo) (first + hi) data (siftDown data lo hi first)"
  unfolding siftDown_def
proof (rule siftDown_from_correct [OF le_refl assms(1)])
  fix p c assume "lo \<le> p" "p \<noteq> lo" "c < hi" "child c p"
  with assms(2) show "keyAt data (first + c) \<le> keyAt data (first + p)"
    by (auto simp: heap_ok_def)
next
  fix p c assume "lo \<le> p" "child lo p"
  then have False by (auto dest: child_less)
  then show "keyAt data (first + c) \<le> keyAt data (first + p)" ..
qed

lemma heapSort_build_correct:
  assumes "first + hi \<le> length data" "heap_ok data first (i + 1) hi"
  shows "heap_ok (heapSort_build data hi first i) first 0 hi
         \<and> perm_in first (first + hi) data (heapSort_build data hi first i)"
  using assms
proof (induction i arbitrary: data)
  case 0
  from siftDown_correct [of first hi data 0] 0 show ?case by simp
next
  case (Suc i)
  define d' where "d' = siftDown data (Suc i) hi first"
  from siftDown_correct [of first hi data "Suc i"] Suc.prems
  have d': "heap_ok d' first (Suc i) hi" "perm_in (first + Suc i) (first + hi) data d'"
    by (simp_all add: d'_def)
  from d'(2) have len: "length d' = length data" by (rule perm_in_length)
  from d'(2) have p: "perm_in first (first + hi) data d'"
    by (rule perm_in_mono) simp_all
  from Suc.IH [of d'] Suc.prems len d'(1)
  have "heap_ok (heapSort_build d' hi first i) first 0 hi"
    and "perm_in first (first + hi) d' (heapSort_build d' hi first i)"
    by simp_all
  with perm_in_trans [OF p] show ?case by (simp add: d'_def)
qed

lemma heap_ok_leaves: "heap_ok data first ((hi - 1) div 2 + 1) hi"
  unfolding heap_ok_def child_def by (intro allI impI) presburger

lemma heap_root_max:
  assumes "heap_ok data first 0 n" "c < n"
  shows "keyAt data (first + c) \<le> keyAt data first"
  using assms(2)
proof (induction c rule: less_induct)
  case (less c)
  show ?case
  proof (cases "c = 0")
    case True
    then show ?thesis by simp
  next
    case False
    define p where "p = (c - 1) div 2"
    from False have ch: "child c p" unfolding p_def by (intro child_parent) simp
    then have "p < c" by (rule child_less)
    with less have "keyAt data (first + p) \<le> keyAt data first" by simp
    moreover from assms(1) ch less.prems have "keyAt data (first + c) \<le> keyAt data (first + p)"
      by (auto simp: heap_ok_def)
    ultimately show ?thesis by simp
  qed
qed

text \<open>
  The second loop of heapSort: the first \<open>i + 1\<close> elements are a heap, the others are
  in order and none of them is less than an element of the heap.
\<close>

lemma heapSort_pop_correct:
  assumes "first + hi \<le> length data" "i < hi"
    and "heap_ok data first 0 (i + 1)"
    and "sorted_in (first + i + 1) (first + hi) data"
    and "\<And>p q. first \<le> p \<Longrightarrow> p \<le> first + i \<Longrightarrow> first + i < q \<Longrightarrow> q < first + hi \<Longrightarrow>
           keyAt data p \<le> keyAt data q"
  shows "sorted_in first (first + hi) (heapSort_pop data first i)
         \<and> perm_in first (first + hi) data (heapSort_pop data first i)"
  using assms
proof (induction i arbitrary: data)
  case 0
  note s = "0.prems"(4) and cross = "0.prems"(5)
  from "0.prems" have "first < length data" by simp
  then have "Swap data first (first + 0) = data" by (simp add: Swap_same)
  moreover have "siftDown data 0 0 first = data"
    unfolding siftDown_def by (subst siftDown_from.simps) simp
  ultimately have eq: "heapSort_pop data first 0 = data" by simp
  have "sorted_in first (first + hi) data"
  proof (rule sorted_inI)
    fix p q assume pq: "first \<le> p" "p < q" "q < first + hi"
    show "keyAt data p \<le> keyAt data q"
    proof (cases "p = first")
      case True
      with pq cross [of p q] show ?thesis by simp
    next
      case False
      with pq sorted_inD [OF s, of p q] show ?thesis by simp
    qed
  qed
  with eq show ?case by (simp add: perm_in_refl)
next
  case (Suc i)
  note heap = Suc.prems(3) and s = Suc.prems(4) and cross = Suc.prems(5)
  define top where "top = first + Suc i"
  define d1 where "d1 = Swap data first top"
  define d2 where "d2 = siftDown d1 0 (Suc i) first"
  from Suc.prems have r: "first < length data" "top < length data"
    by (simp_all add: top_def)
  have k1: "keyAt d1 x = (if x = top then keyAt data first else if x = first then keyAt data top
      else keyAt data x)" if "x < length data" for x
    unfolding d1_def using key_Swap [OF r that] by simp
  have len1: "length d1 = length data" by (simp add: d1_def length_Swap)
  have p1: "perm_in first (first + hi) data d1"
    unfolding d1_def using Suc.prems by (intro perm_in_Swap) (simp_all add: top_def)
  have "heap_ok d1 first (0 + 1) (Suc i)"
    unfolding heap_ok_def
  proof (intro allI impI)
    fix p c assume pc: "0 + 1 \<le> p \<and> c < Suc i \<and> child c p"
    then have "p < c" by (auto dest: child_less)
    with pc Suc.prems have "first + c < length data" "first + p < length data"
      "first + c \<noteq> top" "first + p \<noteq> top" "first + c \<noteq> first" "first + p \<noteq> first"
      by (auto simp: top_def)
    with k1 [of "first + c"] k1 [of "first + p"] pc heap
    show "keyAt d1 (first + c) \<le> keyAt d1 (first + p)"
      by (auto simp: heap_ok_def)
  qed
  with siftDown_correct [of first "Suc i" d1 0] Suc.prems len1
  have d2: "heap_ok d2 first 0 (Suc i)" "perm_in first top d1 d2"
    by (simp_all add: d2_def top_def)
  from d2(2) have len2: "length d2 = length data" using len1 by (simp add: perm_in_length)
  have p2: "perm_in first (first + hi) d1 d2"
    using perm_in_mono [OF d2(2), of first "first + hi"] Suc.prems by (simp add: top_def)
  have k2: "keyAt d2 x = keyAt d1 x" if "top \<le> x" "x < length data" for x
    using perm_in_key [OF d2(2), of x] that len1 by simp
  have root: "keyAt data x \<le> keyAt data first" if "first \<le> x" "x \<le> top" for x
    using heap_root_max [OF heap, of "x - first"] that by (simp add: top_def)
  have s2: "sorted_in (first + i + 1) (first + hi) d2"
  proof (rule sorted_inI)
    fix p q assume pq: "first + i + 1 \<le> p" "p < q" "q < first + hi"
    with Suc.prems have in_range: "p < length data" "q < length data" "top \<le> p" "top \<le> q"
      by (simp_all add: top_def)
    show "keyAt d2 p \<le> keyAt d2 q"
    proof (cases "p = top")
      case True
      with pq cross [of first q] have "keyAt data first \<le> keyAt data q"
        by (simp add: top_def)
      with True pq k2 [of p] k2 [of q] k1 [of p] k1 [of q] in_range show ?thesis
        by (auto simp: top_def)
    next
      case False
      with pq in_range have "first + Suc i + 1 \<le> p" by (simp add: top_def)
      from sorted_inD [OF s this _ pq(3)] pq have "keyAt data p \<le> keyAt data q" by simp
      with False pq k2 [of p] k2 [of q] k1 [of p] k1 [of q] in_range show ?thesis
        by (auto simp: top_def)
    qed
  qed
  have c2: "keyAt d2 p \<le> keyAt d2 q"
    if "first \<le> p" "p \<le> first + i" "first + i < q" "q < first + hi" for p q
  proof -
    from that Suc.prems have q: "top \<le> q" "q < length data" by (simp_all add: top_def)
    from that have "p < top" by (simp add: top_def)
    with perm_in_key_elem [OF d2(2), of p] that len1 r obtain p'
      where p': "first \<le> p'" "p' < top" "keyAt d2 p = keyAt d1 p'" by auto
    from p' r have kp: "keyAt d1 p' = (if p' = first then keyAt data top else keyAt data p')"
      using k1 [of p'] by simp
    show ?thesis
    proof (cases "q = top")
      case True
      with k2 [of q] k1 [of q] q have "keyAt d2 q = keyAt data first" by simp
      moreover from p' kp root [of top] root [of p'] have "keyAt d1 p' \<le> keyAt data first"
        by auto
      ultimately show ?thesis using p' by simp
    next
      case False
      with q k2 [of q] k1 [of q] have kq: "keyAt d2 q = keyAt data q"
        by (auto simp: top_def)
      from False q that p' cross [of top q] cross [of p' q]
      have "keyAt data top \<le> keyAt data q" "keyAt data p' \<le> keyAt data q"
        by (simp_all add: top_def)
      with kp kq p' show ?thesis by auto
    qed
  qed
  from Suc.prems len2 have "first + hi \<le> length d2" "i < hi" by simp_all
  from Suc.IH [OF this _ s2 c2] d2(1)
  have "sorted_in first (first + hi) (heapSort_pop d2 first i)"
    and "perm_in first (first + hi) d2 (heapSort_pop d2 first i)"
    by simp_all
  moreover have "heapSort_pop data first (Suc i) = heapSort_pop d2 first i"
    by (simp add: d2_def d1_def top_def)
  ultimately show ?case
    using perm_in_trans [OF perm_in_trans [OF p1 p2]] by simp
qed

lemma heapSort_correct:
  assumes "a \<le> b" "b \<le> length data"
  shows "perm_in a b data (heapSort data a b) \<and> sorted_in a b (heapSort data a b)"
proof -
  define hi where "hi = b - a"
  define d1 where "d1 = heapSort_build data hi a ((hi - 1) div 2)"
  from assms have ab: "a + hi = b" "a + hi \<le> length data" by (simp_all add: hi_def)
  from heapSort_build_correct [OF ab(2) heap_ok_leaves]
  have d1: "heap_ok d1 a 0 hi" "perm_in a b data d1"
    by (simp_all add: d1_def ab)
  have eq: "heapSort data a b = (if hi = 0 then d1 else heapSort_pop d1 a (hi - 1))"
    by (simp add: heapSort_def Let_def hi_def d1_def)
  show ?thesis
  proof (cases "hi = 0")
    case True
    with eq d1 ab show ?thesis by (simp add: sorted_in_small)
  next
    case False
    from d1(2) ab have len: "a + hi \<le> length d1" by (simp add: perm_in_length)
    from False have "hi - 1 < hi" "hi - 1 + 1 = hi" by simp_all
    with heapSort_pop_correct [OF len, of "hi - 1"] d1(1) False
    have "sorted_in a (a + hi) (heapSort_pop d1 a (hi - 1))
        \<and> perm_in a (a + hi) d1 (heapSort_pop d1 a (hi - 1))"
      by (simp add: sorted_in_small)
    with False eq ab perm_in_trans [OF d1(2)] show ?thesis by simp
  qed
qed

subsection \<open>Partitioning\<close>

lemma range_extend_low:
  assumes "P i" "\<forall>k. i + 1 \<le> k \<and> k < r \<longrightarrow> P k"
  shows "\<forall>k::nat. i \<le> k \<and> k < r \<longrightarrow> P k"
proof (intro allI impI)
  fix k assume "i \<le> k \<and> k < r"
  with assms show "P k" by (cases "k = i") auto
qed

lemma range_extend_high:
  assumes "P (j - 1)" "\<forall>k. j \<le> k \<and> k < b \<longrightarrow> P k"
  shows "\<forall>k::nat. j - 1 \<le> k \<and> k < b \<longrightarrow> P k"
proof (intro allI impI)
  fix k assume "j - 1 \<le> k \<and> k < b"
  with assms show "P k" by (cases "k = j - 1") auto
qed

lemma partition_up_spec:
  assumes "i \<le> j1"
  shows "i \<le> partition_up d a i j1 \<and> partition_up d a i j1 \<le> j1
         \<and> (\<forall>k. i \<le> k \<and> k < partition_up d a i j1 \<longrightarrow> keyAt d k < keyAt d a)
         \<and> (partition_up d a i j1 < j1 \<longrightarrow> \<not> keyAt d (partition_up d a i j1) < keyAt d a)"
  using assms
proof (induction d a i j1 rule: partition_up.induct)
  case (1 data a i j1)
  show ?case
  proof (cases "i < j1 \<and> Less data i a")
    case True
    then have eq: "partition_up data a i j1 = partition_up data a (i + 1) j1"
      by (subst partition_up.simps) simp
    from True have "i + 1 \<le> j1" by simp
    from "1.IH" [OF True this] have IH: "i + 1 \<le> partition_up data a (i + 1) j1"
      "partition_up data a (i + 1) j1 \<le> j1"
      "\<forall>k. i + 1 \<le> k \<and> k < partition_up data a (i + 1) j1 \<longrightarrow> keyAt data k < keyAt data a"
      "partition_up data a (i + 1) j1 < j1 \<longrightarrow>
         \<not> keyAt data (partition_up data a (i + 1) j1) < keyAt data a"
      by simp_all
    from True have "keyAt data i < keyAt data a" by (simp add: Less_key)
    from range_extend_low [of "\<lambda>k. keyAt data k < keyAt data a", OF this IH(3)] IH(1,2,4)
    show ?thesis unfolding eq by simp
  next
    case False
    then have "partition_up data a i j1 = i"
      by (subst partition_up.simps) auto
    with False "1.prems" show ?thesis by (auto simp: Less_key)
  qed
qed

lemma partition_down_spec:
  assumes "i \<le> j1"
  shows "i \<le> partition_down d a i j1 \<and> partition_down d a i j1 \<le> j1
         \<and> (\<forall>k. partition_down d a i j1 \<le> k \<and> k < j1 \<longrightarrow> keyAt d a \<le> keyAt d k)
         \<and> (i < partition_down d a i j1 \<longrightarrow> keyAt d (partition_down d a i j1 - 1) < keyAt d a)"
  using assms
proof (induction d a i j1 rule: partition_down.induct)
  case (1 data a i j1)
  show ?case
  proof (cases "i < j1 \<and> \<not> Less data (j1 - 1) a")
    case True
    then have eq: "partition_down data a i j1 = partition_down data a i (j1 - 1)"
      by (subst partition_down.simps) simp
    from True have "i \<le> j1 - 1" by auto
    from "1.IH" [OF True this] have IH: "i \<le> partition_down data a i (j1 - 1)"
      "partition_down data a i (j1 - 1) \<le> j1 - 1"
      "\<forall>k. partition_down data a i (j1 - 1) \<le> k \<and> k < j1 - 1 \<longrightarrow> keyAt data a \<le> keyAt data k"
      "i < partition_down data a i (j1 - 1) \<longrightarrow>
         keyAt data (partition_down data a i (j1 - 1) - 1) < keyAt data a"
      by simp_all
    from True have top: "keyAt data a \<le> keyAt data (j1 - 1)" by (simp add: Less_key)
    have "\<forall>k. partition_down data a i (j1 - 1) \<le> k \<and> k < j1 \<longrightarrow> keyAt data a \<le> keyAt data k"
    proof (intro allI impI)
      fix k assume "partition_down data a i (j1 - 1) \<le> k \<and> k < j1"
      with IH(3) top show "keyAt data a \<le> keyAt data k" by (cases "k = j1 - 1") auto
    qed
    with IH(1,2,4) show ?thesis unfolding eq by auto
  next
    case False
    then have "partition_down data a i j1 = j1"
      by (subst partition_down.simps) auto
    with False "1.prems" show ?thesis by (auto simp: Less_key)
  qed
qed

text \<open>
  The main loop of partition: behind the pivot at \<open>a\<close>, the elements in front of \<open>i\<close> are
  less than the pivot and the elements from \<open>j1\<close> on are not.
\<close>

lemma partition_loop_spec:
  assumes "a < i" "i \<le> j1" "j1 \<le> b" "b \<le> length d"
    and "\<forall>k. a < k \<and> k < i \<longrightarrow> keyAt d k < keyAt d a"
    and "\<forall>k. j1 \<le> k \<and> k < b \<longrightarrow> keyAt d a \<le> keyAt d k"
  shows "perm_in (a + 1) b d (fst (partition_loop d a i j1))
         \<and> a < snd (partition_loop d a i j1) \<and> snd (partition_loop d a i j1) \<le> b
         \<and> (\<forall>k. a < k \<and> k < snd (partition_loop d a i j1) \<longrightarrow>
               keyAt (fst (partition_loop d a i j1)) k < keyAt (fst (partition_loop d a i j1)) a)
         \<and> (\<forall>k. snd (partition_loop d a i j1) \<le> k \<and> k < b \<longrightarrow>
               keyAt (fst (partition_loop d a i j1)) a \<le> keyAt (fst (partition_loop d a i j1)) k)"
  using assms
proof (induction d a i j1 rule: partition_loop.induct)
  case (1 data a i j1)
  note low = "1.prems"(5) and high = "1.prems"(6)
  define i' where "i' = partition_up data a i j1"
  define j1' where "j1' = partition_down data a i' j1"
  have eq: "partition_loop data a i j1 =
      (if j1' \<le> i' then (data, j1')
       else partition_loop (Swap data i' (j1' - 1)) a (i' + 1) (j1' - 1))"
    by (subst partition_loop.simps) (simp add: Let_def i'_def j1'_def)
  from partition_up_spec [OF "1.prems"(2), of data a]
  have up: "i \<le> i'" "i' \<le> j1" "\<forall>k. i \<le> k \<and> k < i' \<longrightarrow> keyAt data k < keyAt data a"
    "i' < j1 \<longrightarrow> \<not> keyAt data i' < keyAt data a"
    by (simp_all add: i'_def)
  from partition_down_spec [OF up(2), of data a]
  have down: "i' \<le> j1'" "j1' \<le> j1" "\<forall>k. j1' \<le> k \<and> k < j1 \<longrightarrow> keyAt data a \<le> keyAt data k"
    "i' < j1' \<longrightarrow> keyAt data (j1' - 1) < keyAt data a"
    by (simp_all add: j1'_def)
  have low': "\<forall>k. a < k \<and> k < i' \<longrightarrow> keyAt data k < keyAt data a"
  proof (intro allI impI)
    fix k assume "a < k \<and> k < i'"
    with low up(3) show "keyAt data k < keyAt data a" by (cases "k < i") auto
  qed
  have high': "\<forall>k. j1' \<le> k \<and> k < b \<longrightarrow> keyAt data a \<le> keyAt data k"
  proof (intro allI impI)
    fix k assume "j1' \<le> k \<and> k < b"
    with high down(3) show "keyAt data a \<le> keyAt data k" by (cases "k < j1") auto
  qed
  show ?case
  proof (cases "j1' \<le> i'")
    case True
    with eq have r: "partition_loop data a i j1 = (data, j1')" by simp
    from True down(1) have "j1' = i'" by simp
    with low' high' up down "1.prems" show ?thesis
      unfolding r by (auto simp: perm_in_refl)
  next
    case False
    define d' where "d' = Swap data i' (j1' - 1)"
    from False eq have r: "partition_loop data a i j1 = partition_loop d' a (i' + 1) (j1' - 1)"
      by (simp add: d'_def)
    from False down(2) up(2) have ilt: "i' < j1" "i' < j1'" by simp_all
    with up(4) down(4) have ki: "keyAt data a \<le> keyAt data i'" "keyAt data (j1' - 1) < keyAt data a"
      by auto
    then have "i' \<noteq> j1' - 1" by auto
    with ilt have lt: "i' < j1' - 1" by simp
    from lt down "1.prems" up have in_range: "i' < length data" "j1' - 1 < length data"
      "a < length data" "a < i'" "a + 1 \<le> i'" "j1' - 1 < b"
      by auto
    have k: "keyAt d' x = (if x = j1' - 1 then keyAt data i' else if x = i' then keyAt data (j1' - 1)
        else keyAt data x)" if "x < length data" for x
      unfolding d'_def using key_Swap [OF in_range(1,2) that] by simp
    have len: "length d' = length data" by (simp add: d'_def length_Swap)
    have p: "perm_in (a + 1) b data d'"
      unfolding d'_def using in_range lt "1.prems" by (intro perm_in_Swap) auto
    from in_range lt k [of a] have ka: "keyAt d' a = keyAt data a" by auto
    have nlow: "\<forall>k. a < k \<and> k < i' + 1 \<longrightarrow> keyAt d' k < keyAt d' a"
    proof (intro allI impI)
      fix x assume x: "a < x \<and> x < i' + 1"
      with in_range lt have "x < length data" "x \<noteq> j1' - 1" by auto
      with x k [of x] ka ki low' show "keyAt d' x < keyAt d' a" by (cases "x = i'") auto
    qed
    have nhigh: "\<forall>k. j1' - 1 \<le> k \<and> k < b \<longrightarrow> keyAt d' a \<le> keyAt d' k"
    proof (intro allI impI)
      fix x assume x: "j1' - 1 \<le> x \<and> x < b"
      with "1.prems" lt have "x < length data" "x \<noteq> i'" by auto
      with x k [of x] ka ki high' show "keyAt d' a \<le> keyAt d' x" by (cases "x = j1' - 1") auto
    qed
    from lt in_range "1.prems" len down
    have "a < i' + 1" "i' + 1 \<le> j1' - 1" "j1' - 1 \<le> b" "b \<le> length d'" by auto
    from "1.IH" [OF i'_def j1'_def False, folded d'_def, OF this nlow nhigh]
      perm_in_trans [OF p] show ?thesis
      unfolding r by simp
  qed
qed

text \<open>The last step of partition puts the pivot between the two parts.\<close>

lemma partition_finish:
  assumes "a < r" "r \<le> b" "b \<le> length d"
    and "\<forall>k. a < k \<and> k < r \<longrightarrow> keyAt d k < keyAt d a"
    and "\<forall>k. r \<le> k \<and> k < b \<longrightarrow> keyAt d a \<le> keyAt d k"
  shows "perm_in a b d (Swap d (r - 1) a)
         \<and> (\<forall>k. a \<le> k \<and> k < r - 1 \<longrightarrow> keyAt (Swap d (r - 1) a) k < keyAt (Swap d (r - 1) a) (r - 1))
         \<and> (\<forall>k. r - 1 < k \<and> k < b \<longrightarrow> keyAt (Swap d (r - 1) a) (r - 1) \<le> keyAt (Swap d (r - 1) a) k)"
proof -
  define d' where "d' = Swap d (r - 1) a"
  from assms have in_range: "r - 1 < length d" "a < length d" by auto
  have k: "keyAt d' x = (if x = a then keyAt d (r - 1) else if x = r - 1 then keyAt d a else keyAt d x)"
    if "x < length d" for x
    unfolding d'_def using key_Swap [OF in_range that] by simp
  have p: "perm_in a b d d'"
    unfolding d'_def using assms by (intro perm_in_Swap) auto
  from k [of "r - 1"] in_range assms(1) have kr: "keyAt d' (r - 1) = keyAt d a"
    by auto
  have l: "\<forall>k. a \<le> k \<and> k < r - 1 \<longrightarrow> keyAt d' k < keyAt d' (r - 1)"
  proof (intro allI impI)
    fix x assume x: "a \<le> x \<and> x < r - 1"
    with in_range have "x < length d" by simp
    with x k [of x] kr assms(4) show "keyAt d' x < keyAt d' (r - 1)"
      by (cases "x = a") auto
  qed
  have h: "\<forall>k. r - 1 < k \<and> k < b \<longrightarrow> keyAt d' (r - 1) \<le> keyAt d' k"
  proof (intro allI impI)
    fix x assume x: "r - 1 < x \<and> x < b"
    with assms have "x < length d" "x \<noteq> a" "x \<noteq> r - 1" "r \<le> x" by auto
    with x k [of x] kr assms(5) show "keyAt d' (r - 1) \<le> keyAt d' x" by auto
  qed
  from p l h show ?thesis by (simp add: d'_def)
qed

lemma partition_spec:
  assumes "a \<le> pivot" "pivot < b" "b \<le> length d"
  shows "perm_in a b d (fst (partition d a b pivot))
         \<and> a \<le> fst (snd (partition d a b pivot)) \<and> fst (snd (partition d a b pivot)) < b
         \<and> (\<forall>k. a \<le> k \<and> k < fst (snd (partition d a b pivot)) \<longrightarrow>
               keyAt (fst (partition d a b pivot)) k
                 < keyAt (fst (partition d a b pivot)) (fst (snd (partition d a b pivot))))
         \<and> (\<forall>k. fst (snd (partition d a b pivot)) < k \<and> k < b \<longrightarrow>
               keyAt (fst (partition d a b pivot)) (fst (snd (partition d a b pivot)))
                 \<le> keyAt (fst (partition d a b pivot)) k)"
proof -
  define d0 where "d0 = Swap d a pivot"
  define i where "i = partition_up d0 a (a + 1) b"
  define j1 where "j1 = partition_down d0 a i b"
  define st where "st = (if j1 \<le> i then (d0, j1)
      else partition_loop (Swap d0 i (j1 - 1)) a (i + 1) (j1 - 1))"
  have eq: "partition d a b pivot = (Swap (fst st) (snd st - 1) a, snd st - 1, j1 \<le> i)"
    unfolding partition_def Let_def d0_def [symmetric] i_def [symmetric] j1_def [symmetric] st_def
    by (simp split: prod.splits)
  from assms have ab: "a + 1 \<le> b" "a < length d" "pivot < length d" by auto
  have p0: "perm_in a b d d0"
    unfolding d0_def using assms by (intro perm_in_Swap) auto
  have len0: "length d0 = length d" by (simp add: d0_def length_Swap)
  from partition_up_spec [OF ab(1), of d0 a]
  have up: "a + 1 \<le> i" "i \<le> b" "\<forall>k. a + 1 \<le> k \<and> k < i \<longrightarrow> keyAt d0 k < keyAt d0 a"
    "i < b \<longrightarrow> \<not> keyAt d0 i < keyAt d0 a"
    by (simp_all add: i_def)
  from partition_down_spec [OF up(2), of d0 a]
  have down: "i \<le> j1" "j1 \<le> b" "\<forall>k. j1 \<le> k \<and> k < b \<longrightarrow> keyAt d0 a \<le> keyAt d0 k"
    "i < j1 \<longrightarrow> keyAt d0 (j1 - 1) < keyAt d0 a"
    by (simp_all add: j1_def)
  have st: "perm_in (a + 1) b d0 (fst st) \<and> a < snd st \<and> snd st \<le> b
      \<and> (\<forall>k. a < k \<and> k < snd st \<longrightarrow> keyAt (fst st) k < keyAt (fst st) a)
      \<and> (\<forall>k. snd st \<le> k \<and> k < b \<longrightarrow> keyAt (fst st) a \<le> keyAt (fst st) k)"
  proof (cases "j1 \<le> i")
    case True
    with down(1) have "j1 = i" by simp
    with True up down show ?thesis
      by (auto simp: st_def perm_in_refl)
  next
    case False
    define d' where "d' = Swap d0 i (j1 - 1)"
    from False have ilt: "i < j1" "i < b" using down(2) by simp_all
    with up(4) down(4) have ki: "keyAt d0 a \<le> keyAt d0 i" "keyAt d0 (j1 - 1) < keyAt d0 a"
      by auto
    then have "i \<noteq> j1 - 1" by auto
    with ilt have lt: "i < j1 - 1" by simp
    from lt down up assms len0 have in_range: "i < length d0" "j1 - 1 < length d0"
      "a < length d0" "a < i" "j1 - 1 < b"
      by auto
    have k: "keyAt d' x = (if x = j1 - 1 then keyAt d0 i else if x = i then keyAt d0 (j1 - 1)
        else keyAt d0 x)" if "x < length d0" for x
      unfolding d'_def using key_Swap [OF in_range(1,2) that] by simp
    have len: "length d' = length d0" by (simp add: d'_def length_Swap)
    have p: "perm_in (a + 1) b d0 d'"
      unfolding d'_def using in_range lt assms len0 by (intro perm_in_Swap) auto
    from in_range lt k [of a] have ka: "keyAt d' a = keyAt d0 a" by auto
    have nlow: "\<forall>k. a < k \<and> k < i + 1 \<longrightarrow> keyAt d' k < keyAt d' a"
    proof (intro allI impI)
      fix x assume x: "a < x \<and> x < i + 1"
      with in_range lt have "x < length d0" "x \<noteq> j1 - 1" by auto
      with x k [of x] ka ki up(3) show "keyAt d' x < keyAt d' a" by (cases "x = i") auto
    qed
    have nhigh: "\<forall>k. j1 - 1 \<le> k \<and> k < b \<longrightarrow> keyAt d' a \<le> keyAt d' k"
    proof (intro allI impI)
      fix x assume x: "j1 - 1 \<le> x \<and> x < b"
      with assms len0 lt have "x < length d0" "x \<noteq> i" by auto
      with x k [of x] ka ki down(3) show "keyAt d' a \<le> keyAt d' x" by (cases "x = j1 - 1") auto
    qed
    from lt in_range assms len len0 down
    have "a < i + 1" "i + 1 \<le> j1 - 1" "j1 - 1 \<le> b" "b \<le> length d'" by auto
    from partition_loop_spec [OF this nlow nhigh] perm_in_trans [OF p] False
    show ?thesis by (simp add: st_def d'_def)
  qed
  then have st': "perm_in (a + 1) b d0 (fst st)" "a < snd st" "snd st \<le> b"
    "\<forall>k. a < k \<and> k < snd st \<longrightarrow> keyAt (fst st) k < keyAt (fst st) a"
    "\<forall>k. snd st \<le> k \<and> k < b \<longrightarrow> keyAt (fst st) a \<le> keyAt (fst st) k"
    by simp_all
  from st'(1) have lens: "length (fst st) = length d" using len0 by (simp add: perm_in_length)
  from st'(1) have ps: "perm_in a b d0 (fst st)" by (rule perm_in_mono) simp_all
  from assms lens have "b \<le> length (fst st)" by simp
  from partition_finish [OF st'(2,3) this st'(4,5)] perm_in_trans [OF p0 ps] st'(2,3)
  show ?thesis
    unfolding eq by (auto intro: perm_in_trans)
qed

subsection \<open>Partitioning around the elements equal to the pivot\<close>

lemma partitionEqual_up_spec:
  assumes "i \<le> j1"
  shows "i \<le> partitionEqual_up d a i j1 \<and> partitionEqual_up d a i j1 \<le> j1
         \<and> (\<forall>k. i \<le> k \<and> k < partitionEqual_up d a i j1 \<longrightarrow> keyAt d k \<le> keyAt d a)
         \<and> (partitionEqual_up d a i j1 < j1 \<longrightarrow> keyAt d a < keyAt d (partitionEqual_up d a i j1))"
  using assms
proof (induction d a i j1 rule: partitionEqual_up.induct)
  case (1 data a i j1)
  show ?case
  proof (cases "i < j1 \<and> \<not> Less data a i")
    case True
    then have eq: "partitionEqual_up data a i j1 = partitionEqual_up data a (i + 1) j1"
      by (subst partitionEqual_up.simps) simp
    from True have "i + 1 \<le> j1" by simp
    from "1.IH" [OF True this] have IH: "i + 1 \<le> partitionEqual_up data a (i + 1) j1"
      "partitionEqual_up data a (i + 1) j1 \<le> j1"
      "\<forall>k. i + 1 \<le> k \<and> k < partitionEqual_up data a (i + 1) j1 \<longrightarrow> keyAt data k \<le> keyAt data a"
      "partitionEqual_up data a (i + 1) j1 < j1 \<longrightarrow>
         keyAt data a < keyAt data (partitionEqual_up data a (i + 1) j1)"
      by simp_all
    from True have "keyAt data i \<le> keyAt data a" by (simp add: Less_key)
    from range_extend_low [of "\<lambda>k. keyAt data k \<le> keyAt data a", OF this IH(3)] IH(1,2,4)
    show ?thesis unfolding eq by simp
  next
    case False
    then have "partitionEqual_up data a i j1 = i"
      by (subst partitionEqual_up.simps) auto
    with False "1.prems" show ?thesis by (auto simp: Less_key)
  qed
qed

lemma partitionEqual_down_spec:
  assumes "i \<le> j1"
  shows "i \<le> partitionEqual_down d a i j1 \<and> partitionEqual_down d a i j1 \<le> j1
         \<and> (\<forall>k. partitionEqual_down d a i j1 \<le> k \<and> k < j1 \<longrightarrow> keyAt d a < keyAt d k)
         \<and> (i < partitionEqual_down d a i j1 \<longrightarrow>
              keyAt d (partitionEqual_down d a i j1 - 1) \<le> keyAt d a)"
  using assms
proof (induction d a i j1 rule: partitionEqual_down.induct)
  case (1 data a i j1)
  show ?case
  proof (cases "i < j1 \<and> Less data a (j1 - 1)")
    case True
    then have eq: "partitionEqual_down data a i j1 = partitionEqual_down data a i (j1 - 1)"
      by (subst partitionEqual_down.simps) simp
    from True have "i \<le> j1 - 1" by auto
    from "1.IH" [OF True this] have IH: "i \<le> partitionEqual_down data a i (j1 - 1)"
      "partitionEqual_down data a i (j1 - 1) \<le> j1 - 1"
      "\<forall>k. partitionEqual_down data a i (j1 - 1) \<le> k \<and> k < j1 - 1 \<longrightarrow> keyAt data a < keyAt data k"
      "i < partitionEqual_down data a i (j1 - 1) \<longrightarrow>
         keyAt data (partitionEqual_down data a i (j1 - 1) - 1) \<le> keyAt data a"
      by simp_all
    from True have top: "keyAt data a < keyAt data (j1 - 1)" by (simp add: Less_key)
    have "\<forall>k. partitionEqual_down data a i (j1 - 1) \<le> k \<and> k < j1 \<longrightarrow> keyAt data a < keyAt data k"
    proof (intro allI impI)
      fix k assume "partitionEqual_down data a i (j1 - 1) \<le> k \<and> k < j1"
      with IH(3) top show "keyAt data a < keyAt data k" by (cases "k = j1 - 1") auto
    qed
    with IH(1,2,4) show ?thesis unfolding eq by auto
  next
    case False
    then have "partitionEqual_down data a i j1 = j1"
      by (subst partitionEqual_down.simps) auto
    with False "1.prems" show ?thesis by (auto simp: Less_key)
  qed
qed

lemma partitionEqual_loop_spec:
  assumes "a < i" "i \<le> j1" "j1 \<le> b" "b \<le> length d"
    and "\<forall>k. a < k \<and> k < i \<longrightarrow> keyAt d k \<le> keyAt d a"
    and "\<forall>k. j1 \<le> k \<and> k < b \<longrightarrow> keyAt d a < keyAt d k"
  shows "perm_in (a + 1) b d (fst (partitionEqual_loop d a i j1))
         \<and> a < snd (partitionEqual_loop d a i j1) \<and> snd (partitionEqual_loop d a i j1) \<le> b
         \<and> (\<forall>k. a < k \<and> k < snd (partitionEqual_loop d a i j1) \<longrightarrow>
               keyAt (fst (partitionEqual_loop d a i j1)) k
                 \<le> keyAt (fst (partitionEqual_loop d a i j1)) a)
         \<and> (\<forall>k. snd (partitionEqual_loop d a i j1) \<le> k \<and> k < b \<longrightarrow>
               keyAt (fst (partitionEqual_loop d a i j1)) a
                 < keyAt (fst (partitionEqual_loop d a i j1)) k)"
  using assms
proof (induction d a i j1 rule: partitionEqual_loop.induct)
  case (1 data a i j1)
  note low = "1.prems"(5) and high = "1.prems"(6)
  define i' where "i' = partitionEqual_up data a i j1"
  define j1' where "j1' = partitionEqual_down data a i' j1"
  have eq: "partitionEqual_loop data a i j1 =
      (if j1' \<le> i' then (data, i')
       else partitionEqual_loop (Swap data i' (j1' - 1)) a (i' + 1) (j1' - 1))"
    by (subst partitionEqual_loop.simps) (simp add: Let_def i'_def j1'_def)
  from partitionEqual_up_spec [OF "1.prems"(2), of data a]
  have up: "i \<le> i'" "i' \<le> j1" "\<forall>k. i \<le> k \<and> k < i' \<longrightarrow> keyAt data k \<le> keyAt data a"
    "i' < j1 \<longrightarrow> keyAt data a < keyAt data i'"
    by (simp_all add: i'_def)
  from partitionEqual_down_spec [OF up(2), of data a]
  have down: "i' \<le> j1'" "j1' \<le> j1" "\<forall>k. j1' \<le> k \<and> k < j1 \<longrightarrow> keyAt data a < keyAt data k"
    "i' < j1' \<longrightarrow> keyAt data (j1' - 1) \<le> keyAt data a"
    by (simp_all add: j1'_def)
  have low': "\<forall>k. a < k \<and> k < i' \<longrightarrow> keyAt data k \<le> keyAt data a"
  proof (intro allI impI)
    fix k assume "a < k \<and> k < i'"
    with low up(3) show "keyAt data k \<le> keyAt data a" by (cases "k < i") auto
  qed
  have high': "\<forall>k. j1' \<le> k \<and> k < b \<longrightarrow> keyAt data a < keyAt data k"
  proof (intro allI impI)
    fix k assume "j1' \<le> k \<and> k < b"
    with high down(3) show "keyAt data a < keyAt data k" by (cases "k < j1") auto
  qed
  show ?case
  proof (cases "j1' \<le> i'")
    case True
    with eq have r: "partitionEqual_loop data a i j1 = (data, i')" by simp
    from True down(1) have "j1' = i'" by simp
    with low' high' up down "1.prems" show ?thesis
      unfolding r by (auto simp: perm_in_refl)
  next
    case False
    define d' where "d' = Swap data i' (j1' - 1)"
    from False eq
    have r: "partitionEqual_loop data a i j1 = partitionEqual_loop d' a (i' + 1) (j1' - 1)"
      by (simp add: d'_def)
    from False down(2) up(2) have ilt: "i' < j1" "i' < j1'" by simp_all
    with up(4) down(4) have ki: "keyAt data a < keyAt data i'" "keyAt data (j1' - 1) \<le> keyAt data a"
      by auto
    then have "i' \<noteq> j1' - 1" by auto
    with ilt have lt: "i' < j1' - 1" by simp
    from lt down "1.prems" up have in_range: "i' < length data" "j1' - 1 < length data"
      "a < length data" "a < i'" "a + 1 \<le> i'" "j1' - 1 < b"
      by auto
    have k: "keyAt d' x = (if x = j1' - 1 then keyAt data i' else if x = i' then keyAt data (j1' - 1)
        else keyAt data x)" if "x < length data" for x
      unfolding d'_def using key_Swap [OF in_range(1,2) that] by simp
    have len: "length d' = length data" by (simp add: d'_def length_Swap)
    have p: "perm_in (a + 1) b data d'"
      unfolding d'_def using in_range lt "1.prems" by (intro perm_in_Swap) auto
    from in_range lt k [of a] have ka: "keyAt d' a = keyAt data a" by auto
    have nlow: "\<forall>k. a < k \<and> k < i' + 1 \<longrightarrow> keyAt d' k \<le> keyAt d' a"
    proof (intro allI impI)
      fix x assume x: "a < x \<and> x < i' + 1"
      with in_range lt have "x < length data" "x \<noteq> j1' - 1" by auto
      with x k [of x] ka ki low' show "keyAt d' x \<le> keyAt d' a" by (cases "x = i'") auto
    qed
    have nhigh: "\<forall>k. j1' - 1 \<le> k \<and> k < b \<longrightarrow> keyAt d' a < keyAt d' k"
    proof (intro allI impI)
      fix x assume x: "j1' - 1 \<le> x \<and> x < b"
      with "1.prems" lt have "x < length data" "x \<noteq> i'" by auto
      with x k [of x] ka ki high' show "keyAt d' a < keyAt d' x" by (cases "x = j1' - 1") auto
    qed
    from lt in_range "1.prems" len down
    have "a < i' + 1" "i' + 1 \<le> j1' - 1" "j1' - 1 \<le> b" "b \<le> length d'" by auto
    from "1.IH" [OF i'_def j1'_def False, folded d'_def, OF this nlow nhigh]
      perm_in_trans [OF p] show ?thesis
      unfolding r by simp
  qed
qed

lemma partitionEqual_spec:
  assumes "a \<le> pivot" "pivot < b" "b \<le> length d"
  shows "perm_in a b d (fst (partitionEqual d a b pivot))
         \<and> a < snd (partitionEqual d a b pivot) \<and> snd (partitionEqual d a b pivot) \<le> b
         \<and> (\<forall>k. a \<le> k \<and> k < snd (partitionEqual d a b pivot) \<longrightarrow>
               keyAt (fst (partitionEqual d a b pivot)) k \<le> keyAt d pivot)
         \<and> (\<forall>k. snd (partitionEqual d a b pivot) \<le> k \<and> k < b \<longrightarrow>
               keyAt d pivot < keyAt (fst (partitionEqual d a b pivot)) k)"
proof -
  define d0 where "d0 = Swap d a pivot"
  define R where "R = partitionEqual_loop d0 a (a + 1) b"
  have eq: "partitionEqual d a b pivot = R"
    by (simp add: partitionEqual_def R_def d0_def)
  from assms have ab: "a + 1 \<le> b" "a < length d" "pivot < length d" "a < a + 1" by auto
  have p0: "perm_in a b d d0"
    unfolding d0_def using assms by (intro perm_in_Swap) auto
  have len0: "length d0 = length d" by (simp add: d0_def length_Swap)
  from key_Swap [OF ab(2,3,2)] have k0: "keyAt d0 a = keyAt d pivot"
    by (simp add: d0_def)
  from assms len0 have "b \<le> b" "b \<le> length d0" by simp_all
  have "\<forall>k. a < k \<and> k < a + 1 \<longrightarrow> keyAt d0 k \<le> keyAt d0 a"
    and "\<forall>k. b \<le> k \<and> k < b \<longrightarrow> keyAt d0 a < keyAt d0 k"
    by auto
  from partitionEqual_loop_spec [OF ab(4,1) \<open>b \<le> b\<close> \<open>b \<le> length d0\<close> this]
  have R: "perm_in (a + 1) b d0 (fst R)" "a < snd R" "snd R \<le> b"
    "\<forall>k. a < k \<and> k < snd R \<longrightarrow> keyAt (fst R) k \<le> keyAt (fst R) a"
    "\<forall>k. snd R \<le> k \<and> k < b \<longrightarrow> keyAt (fst R) a < keyAt (fst R) k"
    by (simp_all add: R_def)
  from perm_in_key [OF R(1), of a] ab len0 k0 have ka: "keyAt (fst R) a = keyAt d pivot"
    by simp
  from R(1) have "perm_in a b d0 (fst R)" by (rule perm_in_mono) simp_all
  with p0 have p: "perm_in a b d (fst R)" by (rule perm_in_trans)
  have low: "\<forall>k. a \<le> k \<and> k < snd R \<longrightarrow> keyAt (fst R) k \<le> keyAt d pivot"
  proof (intro allI impI)
    fix k assume "a \<le> k \<and> k < snd R"
    with R(4) ka show "keyAt (fst R) k \<le> keyAt d pivot" by (cases "k = a") auto
  qed
  from p R(2,3) low R(5) ka show ?thesis
    unfolding eq by simp
qed

subsection \<open>The pivot, the reversal and the scattering\<close>

lemma median_range: "fst (median data x y z s) \<in> {x, y, z}"
  by (simp add: median_def order2_def Let_def split: prod.splits if_splits)

lemma medianAdjacent_range:
  assumes "a + 1 \<le> x" "x + 1 < b"
  shows "a \<le> fst (medianAdjacent data x s) \<and> fst (medianAdjacent data x s) < b"
proof -
  from median_range [of data "x - 1" x "x + 1" s]
  have "fst (medianAdjacent data x s) \<in> {x - 1, x, x + 1}"
    by (simp add: medianAdjacent_def)
  with assms show ?thesis by auto
qed

lemma median_in_range:
  assumes "a \<le> x \<and> x < b" "a \<le> y \<and> y < b" "a \<le> z \<and> z < b"
  shows "a \<le> fst (median data x y z s) \<and> fst (median data x y z s) < b"
  using median_range [of data x y z s] assms by auto

lemma choosePivot_range:
  assumes "a < b"
  shows "a \<le> fst (choosePivot data a b) \<and> fst (choosePivot data a b) < b"
proof -
  define l where "l = b - a"
  define q where "q = l div 4"
  from assms have l: "0 < l" "b = a + l" by (simp_all add: l_def)
  have q: "4 * q \<le> l" by (simp add: q_def)
  show ?thesis
  proof (cases "8 \<le> l")
    case False
    then have "fst (choosePivot data a b) = a + q * 2"
      by (simp add: choosePivot_def Let_def l_def q_def)
    with l q show ?thesis by simp
  next
    case l8: True
    then have q2: "2 \<le> q" by (simp add: q_def)
    show ?thesis
    proof (cases "shortestNinther \<le> l")
      case False
      obtain p s where m: "median data (a + q) (a + q * 2) (a + q * 3) 0 = (p, s)"
        by force
      from False l8 m have "fst (choosePivot data a b) = p"
        by (simp add: choosePivot_def Let_def l_def [symmetric] q_def [symmetric])
      moreover from l q q2
      have "a \<le> a + q \<and> a + q < b" "a \<le> a + q * 2 \<and> a + q * 2 < b"
        "a \<le> a + q * 3 \<and> a + q * 3 < b"
        by simp_all
      from median_in_range [OF this, of data 0] m have "a \<le> p \<and> p < b" by simp
      ultimately show ?thesis by simp
    next
      case True
      obtain i s1 where 1: "medianAdjacent data (a + q) 0 = (i, s1)" by force
      obtain j s2 where 2: "medianAdjacent data (a + q * 2) s1 = (j, s2)" by force
      obtain k s3 where 3: "medianAdjacent data (a + q * 3) s2 = (k, s3)" by force
      obtain p s4 where 4: "median data i j k s3 = (p, s4)" by force
      from True l8 1 2 3 4 have "fst (choosePivot data a b) = p"
        by (simp add: choosePivot_def Let_def l_def [symmetric] q_def [symmetric])
      moreover from l q q2
      have r: "a + 1 \<le> a + q" "a + q + 1 < b" "a + 1 \<le> a + q * 2" "a + q * 2 + 1 < b"
        "a + 1 \<le> a + q * 3" "a + q * 3 + 1 < b"
        by simp_all
      from medianAdjacent_range [OF r(1,2), of data 0] 1 have "a \<le> i \<and> i < b" by simp
      moreover from medianAdjacent_range [OF r(3,4), of data s1] 2 have "a \<le> j \<and> j < b"
        by simp
      moreover from medianAdjacent_range [OF r(5,6), of data s2] 3 have "a \<le> k \<and> k < b"
        by simp
      ultimately show ?thesis
        using median_in_range [of a i b j k data s3] 4 by simp
    qed
  qed
qed





lemma reverseRange_from_perm:
  assumes "a \<le> i" "j < b" "b \<le> length d"
  shows "perm_in a b d (reverseRange_from d i j)"
  using assms
proof (induction d i j rule: reverseRange_from.induct)
  case (1 data i j)
  show ?case
  proof (cases "i < j")
    case True
    then have eq: "reverseRange_from data i j = reverseRange_from (Swap data i j) (i + 1) (j - 1)"
      by (subst reverseRange_from.simps) simp
    from True "1.prems" have p: "perm_in a b data (Swap data i j)"
      by (intro perm_in_Swap) auto
    from True "1.prems" have "a \<le> i + 1" "j - 1 < b" "b \<le> length (Swap data i j)"
      by (simp_all add: length_Swap)
    from "1.IH" [OF True this] p show ?thesis
      unfolding eq by (rule perm_in_trans [rotated])
  next
    case False
    then have "reverseRange_from data i j = data"
      by (subst reverseRange_from.simps) simp
    then show ?thesis by (simp add: perm_in_refl)
  qed
qed

lemma reverseRange_perm:
  assumes "a < b" "b \<le> length d"
  shows "perm_in a b d (reverseRange d a b)"
  unfolding reverseRange_def using assms by (intro reverseRange_from_perm) auto

lemma bits_Len_bound: "0 < n \<Longrightarrow> 2 ^ bits_Len n \<le> 2 * n"
proof (induction n rule: bits_Len.induct)
  case (1 n)
  show ?case
  proof (cases "n div 2 = 0")
    case True
    with "1.prems" have n: "n = Suc 0" by auto
    have "bits_Len (Suc 0) = Suc 0"
      by (simp add: bits_Len.simps [of "Suc 0"] bits_Len.simps [of 0])
    with n show ?thesis by simp
  next
    case False
    with "1.IH" "1.prems" have "2 ^ bits_Len (n div 2) \<le> 2 * (n div 2)" by simp
    moreover from "1.prems" have "bits_Len n = Suc (bits_Len (n div 2))"
      by (subst bits_Len.simps) simp
    ultimately show ?thesis by simp
  qed
qed

lemma masked_less: "unat (and (r :: 64 word) (of_nat (2 ^ k) - 1)) < 2 ^ k"
proof -
  have "of_nat (2 ^ k) - 1 = (mask k :: 64 word)"
    by (simp add: mask_eq_exp_minus_1)
  then have "and r (of_nat (2 ^ k) - 1) = take_bit k r"
    by (simp add: take_bit_eq_mask)
  then show ?thesis
    by (simp add: unsigned_take_bit_eq)
qed

lemma breakPatterns_step_perm:
  assumes "8 \<le> b - a" "b \<le> length (fst state)" "i \<le> 2"
  shows "perm_in a b (fst state)
    (fst (breakPatterns_step a (b - a) (nextPowerOfTwo (b - a)) (a + ((b - a) div 4) * 2 - 1) state i))"
proof -
  define l where "l = b - a"
  define other0 where
    "other0 = unat (and (xorshift_Next (snd state)) (of_nat (nextPowerOfTwo l) - 1))"
  define other where "other = (if l \<le> other0 then other0 - l else other0)"
  from assms have l: "8 \<le> l" "b = a + l" by (simp_all add: l_def)
  have "other0 < 2 ^ bits_Len l"
    unfolding other0_def nextPowerOfTwo_def by (rule masked_less)
  also from l have "\<dots> \<le> 2 * l" by (intro bits_Len_bound) simp
  finally have "other < l" by (auto simp: other_def)
  have res: "fst (breakPatterns_step a l (nextPowerOfTwo l) (a + (l div 4) * 2 - 1) state i)
      = Swap (fst state) (a + (l div 4) * 2 - 1 - 1 + i) (a + other)"
    by (simp add: breakPatterns_step_def Let_def other_def other0_def)
  have "4 * (l div 4) \<le> l" by simp
  moreover from l have "2 \<le> l div 4" by simp
  ultimately have "a \<le> a + (l div 4) * 2 - 1 - 1 + i" "a + (l div 4) * 2 - 1 - 1 + i < b"
    using l assms(3) by simp_all
  moreover from \<open>other < l\<close> l have "a \<le> a + other" "a + other < b" by simp_all
  ultimately show ?thesis
    unfolding l_def [symmetric] res using assms(2) by (intro perm_in_Swap)
qed

lemma breakPatterns_perm:
  assumes "b \<le> length d"
  shows "perm_in a b d (breakPatterns d a b)"
proof (cases "8 \<le> b - a")
  case False
  then show ?thesis by (simp add: breakPatterns_def perm_in_refl)
next
  case True
  define step where
    "step = breakPatterns_step a (b - a) (nextPowerOfTwo (b - a)) (a + ((b - a) div 4) * 2 - 1)"
  define s0 :: "byFileNumber \<times> 64 word" where "s0 = (d, of_nat (b - a))"
  define s1 where "s1 = step s0 0"
  define s2 where "s2 = step s1 1"
  define s3 where "s3 = step s2 2"
  from True have eq: "breakPatterns d a b = fst s3"
    by (simp add: breakPatterns_def Let_def s3_def s2_def s1_def s0_def step_def)
  from assms have "b \<le> length (fst s0)" by (simp add: s0_def)
  from breakPatterns_step_perm [OF True this, of 0] have p1: "perm_in a b (fst s0) (fst s1)"
    by (simp add: s1_def step_def)
  then have "b \<le> length (fst s1)" using assms by (simp add: perm_in_length s0_def)
  from breakPatterns_step_perm [OF True this, of 1] have p2: "perm_in a b (fst s1) (fst s2)"
    by (simp add: s2_def step_def)
  then have "b \<le> length (fst s2)" using \<open>b \<le> length (fst s1)\<close> by (simp add: perm_in_length)
  from breakPatterns_step_perm [OF True this, of 2] have p3: "perm_in a b (fst s2) (fst s3)"
    by (simp add: s3_def step_def)
  from perm_in_trans [OF perm_in_trans [OF p1 p2] p3] show ?thesis
    unfolding eq by (simp add: s0_def)
qed

subsection \<open>The partial insertion sort\<close>

lemma sorted_in_extend:
  assumes "sorted_in a i data" "a < i" "keyAt data (i - 1) \<le> keyAt data i"
  shows "sorted_in a (i + 1) data"
proof (rule sorted_inI)
  fix p q
  assume pq: "a \<le> p" "p < q" "q < i + 1"
  show "keyAt data p \<le> keyAt data q"
  proof (cases "q = i")
    case True
    from pq True assms(2) have "a \<le> p" "p \<le> i - 1" "i - 1 < i" by auto
    from sorted_inD [OF assms(1) this] assms(3) True show ?thesis by simp
  next
    case False
    with pq have "p \<le> q" "q < i" by auto
    from sorted_inD [OF assms(1) pq(1) this] show ?thesis .
  qed
qed

lemma partialInsertionSort_scan_spec:
  assumes "a < i" "i \<le> b" "sorted_in a i data"
  shows "i \<le> partialInsertionSort_scan data b i \<and> partialInsertionSort_scan data b i \<le> b
         \<and> sorted_in a (partialInsertionSort_scan data b i) data
         \<and> (partialInsertionSort_scan data b i < b \<longrightarrow>
              Less data (partialInsertionSort_scan data b i) (partialInsertionSort_scan data b i - 1))"
  using assms
proof (induction data b i rule: partialInsertionSort_scan.induct)
  case (1 data b i)
  show ?case
  proof (cases "i < b \<and> \<not> Less data i (i - 1)")
    case True
    then have eq: "partialInsertionSort_scan data b i = partialInsertionSort_scan data b (i + 1)"
      by (subst partialInsertionSort_scan.simps) simp
    from True have "keyAt data (i - 1) \<le> keyAt data i" by (simp add: Less_key)
    from sorted_in_extend [OF "1.prems"(3,1) this] have s: "sorted_in a (i + 1) data" .
    from True "1.prems" have "a < i + 1" "i + 1 \<le> b" by simp_all
    from "1.IH" [OF True this s] show ?thesis
      unfolding eq by simp
  next
    case False
    then have "partialInsertionSort_scan data b i = i"
      by (subst partialInsertionSort_scan.simps) auto
    with False "1.prems" show ?thesis by auto
  qed
qed


text \<open>
  The shift to the left stops at index 1, not at \<open>a\<close>. In pdqsort no element in front
  of \<open>a\<close> is greater than one of the slice, so the shift stops at \<open>a\<close> all the same.
\<close>

lemma partialInsertionSort_left_eq:
  assumes "lower_ok data a b" "a \<le> j" "j < b" "b \<le> length data"
  shows "partialInsertionSort_left data j = insertionSort_down data a j"
  using assms
proof (induction data j rule: partialInsertionSort_left.induct)
  case (1 data j)
  show ?case
  proof (cases "a < j")
    case False
    with "1.prems" have j: "j = a" by simp
    have n: "\<not> (1 \<le> a \<and> Less data a (a - 1))"
    proof
      assume c: "1 \<le> a \<and> Less data a (a - 1)"
      with "1.prems" j have "a - 1 < a \<and> a \<le> a \<and> a < b" by simp
      with "1.prems"(1) have "keyAt data (a - 1) \<le> keyAt data a"
        unfolding lower_ok_def by blast
      with c show False by (simp add: Less_key)
    qed
    from n have "partialInsertionSort_left data a = data"
      by (subst partialInsertionSort_left.simps) auto
    moreover have "insertionSort_down data a a = data"
      by (subst insertionSort_down.simps) simp
    ultimately show ?thesis using j by simp
  next
    case aj: True
    show ?thesis
    proof (cases "Less data j (j - 1)")
      case False
      then have "partialInsertionSort_left data j = data"
        by (subst partialInsertionSort_left.simps) simp
      moreover from False have "insertionSort_down data a j = data"
        by (subst insertionSort_down.simps) simp
      ultimately show ?thesis by simp
    next
      case True
      define d' where "d' = Swap data j (j - 1)"
      from aj True have c: "1 \<le> j \<and> Less data j (j - 1)" by simp
      then have l: "partialInsertionSort_left data j = partialInsertionSort_left d' (j - 1)"
        by (subst partialInsertionSort_left.simps) (simp add: d'_def)
      from aj True have r: "insertionSort_down data a j = insertionSort_down d' a (j - 1)"
        by (subst insertionSort_down.simps) (simp add: d'_def)
      from aj "1.prems" have "perm_in a b data d'"
        unfolding d'_def by (intro perm_in_Swap) auto
      from lower_ok_perm [OF "1.prems"(1) this "1.prems"(4)] have lo: "lower_ok d' a b" .
      from aj "1.prems" have "a \<le> j - 1" "j - 1 < b" "b \<le> length d'"
        by (auto simp: d'_def length_Swap)
      from "1.IH" [OF c, folded d'_def, OF lo this] show ?thesis
        unfolding l r .
    qed
  qed
qed

lemma partialInsertionSort_right_perm:
  assumes "1 \<le> j" "j \<le> b" "b \<le> length data"
  shows "perm_in (j - 1) b data (partialInsertionSort_right data b j)"
  using assms
proof (induction data b j rule: partialInsertionSort_right.induct)
  case (1 data b j)
  show ?case
  proof (cases "j < b \<and> Less data j (j - 1)")
    case True
    define d' where "d' = Swap data j (j - 1)"
    from True have eq: "partialInsertionSort_right data b j = partialInsertionSort_right d' b (j + 1)"
      by (subst partialInsertionSort_right.simps) (simp add: d'_def)
    from True "1.prems" have p: "perm_in (j - 1) b data d'"
      unfolding d'_def by (intro perm_in_Swap) auto
    from True "1.prems" have "1 \<le> j + 1" "j + 1 \<le> b" "b \<le> length d'"
      by (auto simp: d'_def length_Swap)
    from "1.IH" [OF True, folded d'_def, OF this]
    have "perm_in (j - 1) b d' (partialInsertionSort_right d' b (j + 1))"
      by (rule perm_in_mono) simp_all
    with p show ?thesis
      unfolding eq by (rule perm_in_trans)
  next
    case False
    then have "partialInsertionSort_right data b j = data"
      by (subst partialInsertionSort_right.simps) auto
    then show ?thesis by (simp add: perm_in_refl)
  qed
qed

lemma partialInsertionSort_steps_correct:
  assumes "lower_ok data a b" "a < i" "i \<le> b" "b \<le> length data" "sorted_in a i data"
  shows "perm_in a b data (fst (partialInsertionSort_steps data a b i j))
         \<and> (snd (partialInsertionSort_steps data a b i j) \<longrightarrow>
              sorted_in a b (fst (partialInsertionSort_steps data a b i j)))"
  using assms
proof (induction data a b i j rule: partialInsertionSort_steps.induct)
  case (1 data a b i j)
  show ?case
  proof (cases "j < maxSteps")
    case False
    then have "partialInsertionSort_steps data a b i j = (data, False)"
      by (subst partialInsertionSort_steps.simps) simp
    then show ?thesis by (simp add: perm_in_refl)
  next
    case steps: True
    define i' where "i' = partialInsertionSort_scan data b i"
    from partialInsertionSort_scan_spec [OF "1.prems"(2,3,5)]
    have scan: "i \<le> i'" "i' \<le> b" "sorted_in a i' data" "i' < b \<longrightarrow> Less data i' (i' - 1)"
      by (simp_all add: i'_def)
    show ?thesis
    proof (cases "i' = b")
      case True
      with steps have "partialInsertionSort_steps data a b i j = (data, True)"
        by (subst partialInsertionSort_steps.simps) (simp add: Let_def i'_def)
      with scan(3) True show ?thesis by (simp add: perm_in_refl)
    next
      case nb: False
      show ?thesis
      proof (cases "b - a < shortestShifting")
        case True
        with steps nb have "partialInsertionSort_steps data a b i j = (data, False)"
          by (subst partialInsertionSort_steps.simps) (simp add: Let_def i'_def)
        then show ?thesis by (simp add: perm_in_refl)
      next
        case long: False
        define d1 where "d1 = Swap data i' (i' - 1)"
        define d2 where
          "d2 = (if 2 \<le> i' - a then partialInsertionSort_left d1 (i' - 1) else d1)"
        define d3 where
          "d3 = (if 2 \<le> b - i' then partialInsertionSort_right d2 b (i' + 1) else d2)"
        from steps nb long
        have eq: "partialInsertionSort_steps data a b i j
            = partialInsertionSort_steps d3 a b i' (j + 1)"
          by (subst partialInsertionSort_steps.simps)
            (simp add: Let_def i'_def [symmetric] d1_def d2_def d3_def)
        from scan nb "1.prems" have r: "a < i'" "i' < b" "i' < length data" by auto
        then have p1: "perm_in a b data d1"
          unfolding d1_def using "1.prems"(4) by (intro perm_in_Swap) auto
        have len1: "length d1 = length data" by (simp add: d1_def length_Swap)
        from lower_ok_perm [OF "1.prems"(1) p1 "1.prems"(4)] have lo1: "lower_ok d1 a b" .
        from r have "perm_in (i' - 1) b data d1"
          unfolding d1_def using "1.prems"(4) by (intro perm_in_Swap) auto
        moreover from scan(3) have "sorted_in a (i' - 1) data"
          by (rule sorted_in_sub) simp_all
        ultimately have s1: "sorted_in a (i' - 1) d1"
          using r by (intro sorted_in_perm_outside [of a "i' - 1" data "i' - 1" b d1]) auto
        have 2: "perm_in a i' d1 d2 \<and> sorted_in a i' d2"
        proof (cases "2 \<le> i' - a")
          case True
          from r True "1.prems"(4) len1 have "a \<le> i' - 1" "i' - 1 < b" "b \<le> length d1"
            by auto
          from partialInsertionSort_left_eq [OF lo1 this] True
          have d2: "d2 = insertionSort_down d1 a (i' - 1)"
            by (simp add: d2_def)
          from r len1 have "a \<le> i' - 1" "i' - 1 \<le> i' - 1" "i' - 1 < length d1"
            by auto
          moreover have "sorted_in (i' - 1) (i' - 1 + 1) d1"
            by (rule sorted_in_small) simp
          ultimately have "perm_in a (i' - 1 + 1) d1 (insertionSort_down d1 a (i' - 1))
              \<and> sorted_in a (i' - 1 + 1) (insertionSort_down d1 a (i' - 1))"
            using s1 by (intro insertionSort_down_correct) auto
          with r show ?thesis by (simp add: d2)
        next
          case False
          with r have "i' \<le> a + 1" by simp
          then have "sorted_in a i' d1" by (rule sorted_in_small)
          with False show ?thesis by (simp add: d2_def perm_in_refl)
        qed
        from 2 have "perm_in a i' d1 d2" by simp
        from perm_in_mono [OF this, of a b] r have p2: "perm_in a b d1 d2" by simp
        have len2: "length d2 = length data"
          using perm_in_length [OF p2] len1 by simp
        have 3: "perm_in i' b d2 d3"
        proof (cases "2 \<le> b - i'")
          case True
          from r len2 "1.prems"(4) have "1 \<le> i' + 1" "i' + 1 \<le> b" "b \<le> length d2"
            by auto
          from partialInsertionSort_right_perm [OF this] True show ?thesis
            by (simp add: d3_def)
        next
          case False
          then show ?thesis by (simp add: d3_def perm_in_refl)
        qed
        from perm_in_mono [OF this, of a b] r have p3: "perm_in a b d2 d3" by simp
        from perm_in_trans [OF perm_in_trans [OF p1 p2] p3] have p: "perm_in a b data d3" .
        from lower_ok_perm [OF "1.prems"(1) p "1.prems"(4)] have lo3: "lower_ok d3 a b" .
        from r len2 "1.prems"(4) have "i' \<le> length d2" by simp
        with 2 3 have s3: "sorted_in a i' d3"
          by (intro sorted_in_perm_outside [of a i' d2 i' b d3]) auto
        from perm_in_length [OF p] "1.prems"(4) have "b \<le> length d3" by simp
        from "1.IH" [OF steps i'_def nb long d1_def d2_def d3_def lo3 r(1) scan(2) this s3]
          perm_in_trans [OF p] show ?thesis
          unfolding eq by simp
      qed
    qed
  qed
qed

lemma partialInsertionSort_correct:
  assumes "lower_ok data a b" "a < b" "b \<le> length data"
  shows "perm_in a b data (fst (partialInsertionSort data a b))
         \<and> (snd (partialInsertionSort data a b) \<longrightarrow>
              sorted_in a b (fst (partialInsertionSort data a b)))"
proof -
  from assms have "a < a + 1" "a + 1 \<le> b" by simp_all
  moreover have "sorted_in a (a + 1) data" by (rule sorted_in_small) simp
  ultimately show ?thesis
    unfolding partialInsertionSort_def using assms
    by (intro partialInsertionSort_steps_correct) auto
qed


subsection \<open>The quicksort\<close>

lemma lower_ok_sub: "lower_ok data a b \<Longrightarrow> b' \<le> b \<Longrightarrow> lower_ok data a b'"
  unfolding lower_ok_def by auto

lemma sorted_in_join:
  assumes "sorted_in a m data" "sorted_in m b data"
    and "\<And>p q. a \<le> p \<Longrightarrow> p < m \<Longrightarrow> m \<le> q \<Longrightarrow> q < b \<Longrightarrow> keyAt data p \<le> keyAt data q"
  shows "sorted_in a b data"
proof (rule sorted_inI)
  fix p q
  assume pq: "a \<le> p" "p < q" "q < b"
  show "keyAt data p \<le> keyAt data q"
  proof (cases "q < m")
    case True
    with pq have "p \<le> q" by simp
    from sorted_inD [OF assms(1) pq(1) this True] show ?thesis .
  next
    case qm: False
    show ?thesis
    proof (cases "p < m")
      case True
      with qm pq assms(3) [of p q] show ?thesis by simp
    next
      case False
      with pq have "m \<le> p" "p \<le> q" by simp_all
      from sorted_inD [OF assms(2) this pq(3)] show ?thesis .
    qed
  qed
qed

lemma pivot_at_perm_left:
  assumes "pivot_at d a mid b" "perm_in a mid d d'" "a \<le> mid" "mid < b" "b \<le> length d"
  shows "pivot_at d' a mid b"
proof -
  from assms have m: "keyAt d' mid = keyAt d mid"
    by (intro perm_in_key [OF assms(2)]) auto
  have low: "keyAt d' k < keyAt d' mid" if "a \<le> k" "k < mid" for k
  proof -
    from assms have "mid \<le> length d" by simp
    from perm_in_key_elem [OF assms(2) that this]
    obtain k' where "a \<le> k'" "k' < mid" "keyAt d' k = keyAt d k'" by auto
    with assms(1) m show ?thesis unfolding pivot_at_def by auto
  qed
  have high: "keyAt d' mid \<le> keyAt d' k" if "mid < k" "k < b" for k
  proof -
    from that assms have "keyAt d' k = keyAt d k"
      by (intro perm_in_key [OF assms(2)]) auto
    with assms(1) m that show ?thesis unfolding pivot_at_def by auto
  qed
  from low high show ?thesis unfolding pivot_at_def by blast
qed

lemma pivot_at_perm_right:
  assumes "pivot_at d a mid b" "perm_in (mid + 1) b d d'" "a \<le> mid" "mid < b" "b \<le> length d"
  shows "pivot_at d' a mid b"
proof -
  from assms have m: "keyAt d' mid = keyAt d mid"
    by (intro perm_in_key [OF assms(2)]) auto
  have low: "keyAt d' k < keyAt d' mid" if "a \<le> k" "k < mid" for k
  proof -
    from that assms have "keyAt d' k = keyAt d k"
      by (intro perm_in_key [OF assms(2)]) auto
    with assms(1) m that show ?thesis unfolding pivot_at_def by auto
  qed
  have high: "keyAt d' mid \<le> keyAt d' k" if "mid < k" "k < b" for k
  proof -
    from that have "mid + 1 \<le> k" by simp
    from perm_in_key_elem [OF assms(2) this that(2) assms(5)]
    obtain k' where "mid + 1 \<le> k'" "k' < b" "keyAt d' k = keyAt d k'" by auto
    with assms(1) m show ?thesis unfolding pivot_at_def by auto
  qed
  from low high show ?thesis unfolding pivot_at_def by blast
qed

lemma pivot_at_sorted:
  assumes "pivot_at d a mid b" "sorted_in a mid d" "sorted_in (mid + 1) b d"
  shows "sorted_in a b d"
proof -
  have "sorted_in mid b d"
  proof (rule sorted_in_join [of mid "mid + 1"])
    show "sorted_in mid (mid + 1) d" by (rule sorted_in_small) simp
    show "sorted_in (mid + 1) b d" by fact
    show "keyAt d p \<le> keyAt d q" if "mid \<le> p" "p < mid + 1" "mid + 1 \<le> q" "q < b" for p q
    proof -
      from that have "p = mid" "mid < q \<and> q < b" by simp_all
      with assms(1) show ?thesis unfolding pivot_at_def by blast
    qed
  qed
  with assms(2) show ?thesis
  proof (rule sorted_in_join)
    fix p q
    assume pq: "a \<le> p" "p < mid" "mid \<le> q" "q < b"
    with assms(1) have "keyAt d p < keyAt d mid" unfolding pivot_at_def by auto
    moreover from pq assms(1) have "keyAt d mid \<le> keyAt d q"
      unfolding pivot_at_def by (cases "q = mid") auto
    ultimately show "keyAt d p \<le> keyAt d q" by simp
  qed
qed

lemma pivot_at_lower_right:
  assumes "pivot_at d a mid b" "lower_ok d a b" "a \<le> mid"
  shows "lower_ok d (mid + 1) b"
  unfolding lower_ok_def
proof (intro allI impI)
  fix i j
  assume ij: "i < mid + 1 \<and> mid + 1 \<le> j \<and> j < b"
  with assms(1) have mj: "keyAt d mid \<le> keyAt d j" unfolding pivot_at_def by auto
  show "keyAt d i \<le> keyAt d j"
  proof (cases "i < a")
    case True
    with ij assms(2,3) show ?thesis unfolding lower_ok_def by auto
  next
    case False
    show ?thesis
    proof (cases "i = mid")
      case True
      with mj show ?thesis by simp
    next
      case nm: False
      with False ij have "a \<le> i \<and> i < mid" by auto
      with assms(1) have "keyAt d i < keyAt d mid" unfolding pivot_at_def by blast
      with mj show ?thesis by simp
    qed
  qed
qed

text \<open>
  When partitionEqual is called, the pivot is at most the element in front of the slice,
  so it is a least element of the slice: the elements that partitionEqual leaves in front
  are all equal to it.
\<close>

lemma partitionEqual_sorted:
  assumes "lower_ok d a b" "0 < a" "a \<le> pivot" "pivot < b" "b \<le> length d"
    and "\<not> Less d (a - 1) pivot"
    and "perm_in a b d d'" "a < m" "m \<le> b"
    and "\<forall>k. a \<le> k \<and> k < m \<longrightarrow> keyAt d' k \<le> keyAt d pivot"
    and "\<forall>k. m \<le> k \<and> k < b \<longrightarrow> keyAt d pivot < keyAt d' k"
  shows "sorted_in a m d' \<and> lower_ok d' m b
         \<and> (\<forall>p q. a \<le> p \<and> p < m \<and> m \<le> q \<and> q < b \<longrightarrow> keyAt d' p < keyAt d' q)"
proof -
  from assms(6) have pv: "keyAt d pivot \<le> keyAt d (a - 1)" by (simp add: Less_key)
  have least: "keyAt d pivot \<le> keyAt d' k" if "a \<le> k" "k < b" for k
  proof -
    from perm_in_key_elem [OF assms(7) that assms(5)]
    obtain k' where k': "a \<le> k'" "k' < b" "keyAt d' k = keyAt d k'" by auto
    with assms(2) have "a - 1 < a \<and> a \<le> k' \<and> k' < b" by simp
    with assms(1) have "keyAt d (a - 1) \<le> keyAt d k'" unfolding lower_ok_def by blast
    with pv k' show ?thesis by simp
  qed
  have eq: "keyAt d' k = keyAt d pivot" if "a \<le> k" "k < m" for k
  proof -
    from that assms(9) have "k < b" by simp
    from least [OF that(1) this] assms(10) that show ?thesis by (simp add: order_antisym)
  qed
  have s: "sorted_in a m d'"
  proof (rule sorted_inI)
    fix p q
    assume "a \<le> p" "p < q" "q < m"
    then have "keyAt d' p = keyAt d pivot" "keyAt d' q = keyAt d pivot"
      by (simp_all add: eq)
    then show "keyAt d' p \<le> keyAt d' q" by simp
  qed
  have cross: "\<forall>p q. a \<le> p \<and> p < m \<and> m \<le> q \<and> q < b \<longrightarrow> keyAt d' p < keyAt d' q"
  proof (intro allI impI)
    fix p q
    assume pq: "a \<le> p \<and> p < m \<and> m \<le> q \<and> q < b"
    then have "keyAt d' p = keyAt d pivot" by (simp add: eq)
    with pq assms(11) show "keyAt d' p < keyAt d' q" by simp
  qed
  from lower_ok_perm [OF assms(1,7,5)] have lo: "lower_ok d' a b" .
  have "lower_ok d' m b"
    unfolding lower_ok_def
  proof (intro allI impI)
    fix i j
    assume ij: "i < m \<and> m \<le> j \<and> j < b"
    show "keyAt d' i \<le> keyAt d' j"
    proof (cases "i < a")
      case True
      with ij assms(8) have "i < a \<and> a \<le> j \<and> j < b" by simp
      with lo show ?thesis unfolding lower_ok_def by blast
    next
      case False
      with ij cross have "keyAt d' i < keyAt d' j" by simp
      then show ?thesis by simp
    qed
  qed
  with s cross show ?thesis by simp
qed

text \<open>
  pdqsort on the slice between \<open>a\<close> and \<open>b\<close>, when no element in front of \<open>a\<close> is greater
  than one of the slice (as it is in every call that \<open>sort.Sort\<close> leads to): the result
  is a rearrangement of the slice, in order, and the rest is untouched.
\<close>

lemma pdqsort_correct:
  assumes "a \<le> b" "b \<le> length data" "lower_ok data a b"
  shows "perm_in a b data (pdqsort data a b limit wb wp)
         \<and> sorted_in a b (pdqsort data a b limit wb wp)"
  using assms
proof (induction "b - a" arbitrary: data a b limit wb wp rule: less_induct)
  case less
  note IH = less.hyps and ab = less.prems(1) and len = less.prems(2) and lo = less.prems(3)
  show ?case
  proof (cases "b - a \<le> maxInsertion")
    case True
    then have "pdqsort data a b limit wb wp = insertionSort data a b"
      by (subst pdqsort.simps) (simp add: Let_def)
    with insertionSort_correct [OF len, of a] show ?thesis by simp
  next
    case long: False
    then have ab': "a < b" by simp
    show ?thesis
    proof (cases "limit = 0")
      case True
      with long have "pdqsort data a b limit wb wp = heapSort data a b"
        by (subst pdqsort.simps) (simp add: Let_def)
      with heapSort_correct [OF ab len] show ?thesis by simp
    next
      case limit: False
      define d1 where "d1 = (if \<not> wb then breakPatterns data a b else data)"
      define limit1 where "limit1 = (if \<not> wb then limit - 1 else limit)"
      define cp where "cp = choosePivot d1 a b"
      define d2 where "d2 = (if snd cp = decreasingHint then reverseRange d1 a b else d1)"
      define pivot where
        "pivot = (if snd cp = decreasingHint then (b - 1) - (fst cp - a) else fst cp)"
      define hint where
        "hint = (if snd cp = decreasingHint then increasingHint else snd cp)"
      define pis where
        "pis = (if wb \<and> wp \<and> hint = increasingHint then partialInsertionSort d2 a b
                else (d2, False))"
      define d3 where "d3 = fst pis"
      define equal where "equal = (0 < a \<and> \<not> Less d3 (a - 1) pivot)"
      define pe where "pe = partitionEqual d3 a b pivot"
      define pt where "pt = partition d3 a b pivot"
      define d4 where "d4 = fst pt"
      define mid where "mid = fst (snd pt)"
      from pdqsort.simps [of data a b limit wb wp] long limit
      have eq: "pdqsort data a b limit wb wp =
          (if snd pis then d3
           else if equal
             then pdqsort (fst pe) (snd pe) b limit1 wb wp
           else if mid - a < b - mid
             then pdqsort (pdqsort d4 a mid limit1 True True) (mid + 1) b limit1
                    ((b - a) div 8 \<le> mid - a) (snd (snd pt))
           else pdqsort (pdqsort d4 (mid + 1) b limit1 True True) a mid limit1
                    ((b - a) div 8 \<le> b - mid) (snd (snd pt)))"
        unfolding Let_def case_prod_beta
        unfolding d1_def [symmetric] limit1_def [symmetric]
        unfolding cp_def [symmetric]
        unfolding d2_def [symmetric] pivot_def [symmetric] hint_def [symmetric]
        unfolding pis_def [symmetric]
        unfolding d3_def [symmetric]
        unfolding equal_def [symmetric]
        unfolding pe_def [symmetric] pt_def [symmetric]
        unfolding d4_def [symmetric] mid_def [symmetric]
        by simp
      have p1: "perm_in a b data d1"
        using breakPatterns_perm [OF len, of a] by (simp add: d1_def perm_in_refl)
      from perm_in_length [OF p1] len have len1: "b \<le> length d1" by simp
      from choosePivot_range [OF ab', of d1] have cp: "a \<le> fst cp" "fst cp < b"
        by (simp_all add: cp_def)
      have p2: "perm_in a b d1 d2"
        using reverseRange_perm [OF ab' len1] by (simp add: d2_def perm_in_refl)
      from perm_in_length [OF p2] len1 have len2: "b \<le> length d2" by simp
      from cp have pivot: "a \<le> pivot" "pivot < b"
        by (auto simp: pivot_def)
      from perm_in_trans [OF p1 p2] have p02: "perm_in a b data d2" .
      from lower_ok_perm [OF lo p02 len] have lo2: "lower_ok d2 a b" .
      have pis: "perm_in a b d2 d3 \<and> (snd pis \<longrightarrow> sorted_in a b d3)"
        using partialInsertionSort_correct [OF lo2 ab' len2]
        by (simp add: d3_def pis_def perm_in_refl)
      then have p3: "perm_in a b d2 d3" by simp
      from perm_in_length [OF p3] len2 have len3: "b \<le> length d3" by simp
      from perm_in_trans [OF p02 p3] have p03: "perm_in a b data d3" .
      from lower_ok_perm [OF lo p03 len] have lo3: "lower_ok d3 a b" .
      show ?thesis
      proof (cases "snd pis")
        case True
        with eq pis p03 show ?thesis by simp
      next
        case unsorted: False
        show ?thesis
        proof (cases equal)
          case equal: True
          then have True: "0 < a \<and> \<not> Less d3 (a - 1) pivot" by (simp add: equal_def)
          define d5 where "d5 = fst pe"
          define m where "m = snd pe"
          from unsorted equal eq
          have r: "pdqsort data a b limit wb wp = pdqsort d5 m b limit1 wb wp"
            by (simp add: d5_def m_def)
          from partitionEqual_spec [OF pivot len3]
          have pe: "perm_in a b d3 d5" "a < m" "m \<le> b"
            "\<forall>k. a \<le> k \<and> k < m \<longrightarrow> keyAt d5 k \<le> keyAt d3 pivot"
            "\<forall>k. m \<le> k \<and> k < b \<longrightarrow> keyAt d3 pivot < keyAt d5 k"
            by (simp_all add: d5_def m_def pe_def)
          from True have "0 < a" "\<not> Less d3 (a - 1) pivot" by simp_all
          from partitionEqual_sorted [OF lo3 this(1) pivot len3 this(2) pe]
          have s5: "sorted_in a m d5" "lower_ok d5 m b"
            "\<forall>p q. a \<le> p \<and> p < m \<and> m \<le> q \<and> q < b \<longrightarrow> keyAt d5 p < keyAt d5 q"
            by simp_all
          from perm_in_length [OF pe(1)] len3 have len5: "b \<le> length d5" by simp
          from pe(2) pe(3) have "b - m < b - a" by simp
          from IH [OF this pe(3) len5 s5(2), of limit1 wb wp]
          have res: "perm_in m b d5 (pdqsort d5 m b limit1 wb wp)"
            "sorted_in m b (pdqsort d5 m b limit1 wb wp)"
            by simp_all
          define res where "res = pdqsort d5 m b limit1 wb wp"
          note res = res [folded res_def]
          from perm_in_mono [OF res(1), of a b] pe(2) have "perm_in a b d5 res" by simp
          with perm_in_trans [OF p03 pe(1)] have p: "perm_in a b data res"
            by (rule perm_in_trans)
          from pe(3) len5 have "m \<le> length d5" by simp
          from sorted_in_perm_outside [OF s5(1) res(1) this] have sl: "sorted_in a m res"
            by simp
          from sl res(2) have "sorted_in a b res"
          proof (rule sorted_in_join)
            fix p q
            assume pq: "a \<le> p" "p < m" "m \<le> q" "q < b"
            from perm_in_key_elem [OF res(1) pq(3,4) len5]
            obtain q' where q': "m \<le> q'" "q' < b" "keyAt res q = keyAt d5 q'" by auto
            from pq len5 pe(3) have "keyAt res p = keyAt d5 p"
              by (intro perm_in_key [OF res(1)]) auto
            with q' pq s5(3) show "keyAt res p \<le> keyAt res q" by (simp add: less_imp_le)
          qed
          with p show ?thesis unfolding r res_def by simp
        next
          case noteq: False
          from partition_spec [OF pivot len3]
          have pt: "perm_in a b d3 d4" "a \<le> mid" "mid < b" "pivot_at d4 a mid b"
            by (simp_all add: d4_def mid_def pt_def pivot_at_def)
          from perm_in_length [OF pt(1)] len3 have len4: "b \<le> length d4" by simp
          from perm_in_trans [OF p03 pt(1)] have p04: "perm_in a b data d4" .
          from lower_ok_perm [OF lo p04 len] have lo4: "lower_ok d4 a b" .
          from pt have small: "mid - a < b - a" "b - (mid + 1) < b - a" by simp_all
          from pt len4 have r4: "mid \<le> length d4" "mid + 1 \<le> b" "mid \<le> b" by simp_all
          show ?thesis
          proof (cases "mid - a < b - mid")
            case True
            define r1 where "r1 = pdqsort d4 a mid limit1 True True"
            define res where
              "res = pdqsort r1 (mid + 1) b limit1 ((b - a) div 8 \<le> mid - a) (snd (snd pt))"
            from unsorted noteq True eq have r: "pdqsort data a b limit wb wp = res"
              by (simp add: res_def r1_def)
            from lower_ok_sub [OF lo4 r4(3)] have "lower_ok d4 a mid" .
            from IH [OF small(1) pt(2) r4(1) this, of limit1 True True]
            have 1: "perm_in a mid d4 r1" "sorted_in a mid r1"
              by (simp_all add: r1_def)
            from perm_in_mono [OF 1(1), of a b] pt have p41: "perm_in a b d4 r1" by simp
            from perm_in_length [OF p41] len4 have len1: "b \<le> length r1" by simp
            from pivot_at_perm_left [OF pt(4) 1(1) pt(2,3) len4] have pv1: "pivot_at r1 a mid b" .
            from lower_ok_perm [OF lo4 p41 len4] have "lower_ok r1 a b" .
            from pivot_at_lower_right [OF pv1 this pt(2)] have "lower_ok r1 (mid + 1) b" .
            from IH [OF small(2) r4(2) len1 this]
            have 2: "perm_in (mid + 1) b r1 res" "sorted_in (mid + 1) b res"
              by (simp_all add: res_def)
            from perm_in_mono [OF 2(1), of a b] pt(2) have p1r: "perm_in a b r1 res" by simp
            from perm_in_trans [OF perm_in_trans [OF p04 p41] p1r] have p: "perm_in a b data res" .
            from pivot_at_perm_right [OF pv1 2(1) pt(2,3) len1] have pvr: "pivot_at res a mid b" .
            from pt len1 have "mid \<le> length r1" by simp
            from sorted_in_perm_outside [OF 1(2) 2(1) this] have "sorted_in a mid res" by simp
            from pivot_at_sorted [OF pvr this 2(2)] p show ?thesis
              unfolding r by simp
          next
            case False
            define r1 where "r1 = pdqsort d4 (mid + 1) b limit1 True True"
            define res where
              "res = pdqsort r1 a mid limit1 ((b - a) div 8 \<le> b - mid) (snd (snd pt))"
            from unsorted noteq False eq have r: "pdqsort data a b limit wb wp = res"
              by (simp add: res_def r1_def)
            from pivot_at_lower_right [OF pt(4) lo4 pt(2)] have "lower_ok d4 (mid + 1) b" .
            from IH [OF small(2) r4(2) len4 this, of limit1 True True]
            have 1: "perm_in (mid + 1) b d4 r1" "sorted_in (mid + 1) b r1"
              by (simp_all add: r1_def)
            from perm_in_mono [OF 1(1), of a b] pt(2) have p41: "perm_in a b d4 r1" by simp
            from perm_in_length [OF p41] len4 have len1: "b \<le> length r1" by simp
            from pivot_at_perm_right [OF pt(4) 1(1) pt(2,3) len4] have pv1: "pivot_at r1 a mid b" .
            from lower_ok_perm [OF lo4 p41 len4] have "lower_ok r1 a b" .
            from lower_ok_sub [OF this r4(3)] have lo1: "lower_ok r1 a mid" .
            from pt len1 have "mid \<le> length r1" by simp
            from IH [OF small(1) pt(2) this lo1]
            have 2: "perm_in a mid r1 res" "sorted_in a mid res"
              by (simp_all add: res_def)
            from perm_in_mono [OF 2(1), of a b] pt have p1r: "perm_in a b r1 res" by simp
            from perm_in_trans [OF perm_in_trans [OF p04 p41] p1r] have p: "perm_in a b data res" .
            from pivot_at_perm_left [OF pv1 2(1) pt(2,3) len1] have pvr: "pivot_at res a mid b" .
            from sorted_in_perm_outside [OF 1(2) 2(1) len1] have "sorted_in (mid + 1) b res"
              by simp
            from pivot_at_sorted [OF pvr 2(2) this] p show ?thesis
              unfolding r by simp
          qed
        qed
      qed
    qed
  qed
qed

subsection \<open>sort.Sort\<close>

lemma sort_Sort_correct:
  "perm_in 0 (length data) data (sort_Sort data) \<and> sorted_in 0 (length data) (sort_Sort data)"
proof (cases "length data \<le> 1")
  case True
  then have "sort_Sort data = data" by (simp add: sort_Sort_def Len_def)
  moreover from True have "sorted_in 0 (length data) data"
    by (intro sorted_in_small) simp
  ultimately show ?thesis by (simp add: perm_in_refl)
next
  case False
  then have eq: "sort_Sort data = pdqsort data 0 (length data) (bits_Len (length data)) True True"
    by (simp add: sort_Sort_def Len_def Let_def)
  have "lower_ok data 0 (length data)" by (simp add: lower_ok_def)
  from pdqsort_correct [OF _ _ this] show ?thesis
    unfolding eq by simp
qed

lemma sort_Sort_length: "length (sort_Sort data) = length data"
  using sort_Sort_correct [of data] perm_in_length [of 0 "length data" data "sort_Sort data"]
  by simp

lemma sort_Sort_mset: "mset (sort_Sort data) = mset data"
  using sort_Sort_correct [of data] perm_in_mset [of 0 "length data" data "sort_Sort data"]
  by simp

lemma sort_Sort_set: "set (sort_Sort data) = set data"
  using sort_Sort_mset [of data] by (rule mset_eq_setD)

lemma sort_Sort_sorted: "sorted (map fileNumber (sort_Sort data))"
proof -
  from sort_Sort_correct [of data] have "sorted_in 0 (length (sort_Sort data)) (sort_Sort data)"
    by (simp add: sort_Sort_length)
  then show ?thesis by (rule sorted_in_whole)
qed

lemma sort_Sort_Nil: "sort_Sort [] = []"
  by (simp add: sort_Sort_def Len_def)





text \<open>Up to 12 elements \<open>sort.Sort\<close> is the insertion sort.\<close>

lemma sort_Sort_small:
  assumes "length data \<le> 12"
  shows "sort_Sort data = insertionSort data 0 (length data)"
proof (cases "length data \<le> 1")
  case True
  then have "insertionSort data 0 (length data) = data"
    unfolding insertionSort_def by (subst insertionSort_from.simps) simp
  with True show ?thesis by (simp add: sort_Sort_def Len_def)
next
  case False
  with assms show ?thesis
    unfolding sort_Sort_def Len_def Let_def
    by (subst pdqsort.simps) (simp add: maxInsertion_def)
qed
section \<open>The migration file lister\<close>

subsection \<open>The loop over the entries\<close>

lemma readDDLFiles_loop_all_parse:
  "all_parse entries \<Longrightarrow> readDDLFiles_loop entries acc = Returned (acc @ parsedFiles entries)"
proof (induction entries arbitrary: acc)
  case Nil
  show ?case by (simp add: parsedFiles_def fileEntries_def)
next
  case (Cons e entries)
  show ?case
  proof (cases "IsDir e")
    case True
    with Cons.prems have "all_parse entries"
      by (simp add: all_parse_def fileEntries_def)
    from Cons.IH [OF this] True show ?thesis
      by (simp add: parsedFiles_def fileEntries_def)
  next
    case False
    with Cons.prems have p: "parses (Name e)" and rest: "all_parse entries"
      by (simp_all add: all_parse_def fileEntries_def)
    from p obtain df where df: "newDDLFile (Name e) = Returned df"
      by (auto simp: parses_def split: result.splits)
    from Cons.IH [OF rest, of "acc @ [df]"] False df show ?thesis
      by (simp add: parsedFiles_def fileEntries_def)
  qed
qed

lemma readDDLFiles_loop_bad:
  "firstBadEntry entries = Some f \<Longrightarrow>
     (\<exists>err. newDDLFile f = Failed err \<and> readDDLFiles_loop entries acc = Failed err)
     \<or> (newDDLFile f = Panicked \<and> readDDLFiles_loop entries acc = Panicked)"
proof (induction entries arbitrary: acc)
  case Nil
  then show ?case by (simp add: firstBadEntry_def fileEntries_def)
next
  case (Cons e entries)
  show ?case
  proof (cases "IsDir e")
    case True
    with Cons.prems have "firstBadEntry entries = Some f"
      by (simp add: firstBadEntry_def fileEntries_def)
    from Cons.IH [OF this, of acc] True show ?thesis
      by simp
  next
    case False
    show ?thesis
    proof (cases "newDDLFile (Name e)")
      case (Returned df)
      then have "parses (Name e)"
        by (simp add: parses_def)
      with False Cons.prems have "firstBadEntry entries = Some f"
        by (simp add: firstBadEntry_def fileEntries_def)
      from Cons.IH [OF this, of "acc @ [df]"] Returned False show ?thesis
        by simp
    next
      case (Failed err)
      then have "\<not> parses (Name e)"
        by (simp add: parses_def)
      with False Cons.prems have "f = Name e"
        by (simp add: firstBadEntry_def fileEntries_def)
      with Failed False show ?thesis
        by simp
    next
      case Panicked
      then have "\<not> parses (Name e)"
        by (simp add: parses_def)
      with False Cons.prems have "f = Name e"
        by (simp add: firstBadEntry_def fileEntries_def)
      with Panicked False show ?thesis
        by simp
    qed
  qed
qed

lemma firstBadEntry_exists:
  "\<not> all_parse entries \<Longrightarrow> \<exists>f. firstBadEntry entries = Some f \<and> f \<in> set (fileEntries entries) \<and> \<not> parses f"
proof -
  assume "\<not> all_parse entries"
  then have "firstBadEntry entries \<noteq> None"
    by (auto simp: all_parse_def firstBadEntry_def find_None_iff list_all_iff)
  then obtain f where f: "firstBadEntry entries = Some f"
    by blast
  then have "f \<in> set (fileEntries entries) \<and> \<not> parses f"
    unfolding firstBadEntry_def by (auto simp: find_Some_iff)
  with f show ?thesis by blast
qed

lemma parsedFiles_names: "all_parse entries \<Longrightarrow> map filename (parsedFiles entries) = fileEntries entries"
proof -
  have "list_all parses fs \<Longrightarrow>
      map filename (concat (map (\<lambda>f. case newDDLFile f of Returned df \<Rightarrow> [df]
          | Failed err \<Rightarrow> [] | Panicked \<Rightarrow> []) fs)) = fs" for fs
  proof (induction fs)
    case Nil
    show ?case by simp
  next
    case (Cons f fs)
    from Cons.prems obtain df where df: "newDDLFile f = Returned df"
      by (auto simp: parses_def split: result.splits)
    then have "filename df = f"
      by (auto simp: newDDLFile_def Let_def split: result.splits sum.splits)
    with Cons df show ?case by simp
  qed
  then show "all_parse entries \<Longrightarrow> map filename (parsedFiles entries) = fileEntries entries"
    by (simp add: all_parse_def parsedFiles_def)
qed


text \<open>newDDLFile panics on the names without a dash, and on no other name.\<close>

lemma newDDLFile_Panicked_iff: "newDDLFile f = Panicked \<longleftrightarrow> CHR ''-'' \<notin> set f"
proof
  assume p: "newDDLFile f = Panicked"
  show "CHR ''-'' \<notin> set f"
  proof
    assume "CHR ''-'' \<in> set f"
    from split_list_first [OF this] obtain pre rest
      where f: "f = pre @ CHR ''-'' # rest" and pre: "CHR ''-'' \<notin> set pre"
      by blast
    from newDDLFile_split [OF pre, of rest] f p show False
      by (simp split: sum.splits)
  qed
next
  assume "CHR ''-'' \<notin> set f"
  with Index_absent [of "CHR ''-''" f] show "newDDLFile f = Panicked"
    by (simp add: newDDLFile_def slice_to_def)
qed

text \<open>
  The part of the fail-fast policy that holds: when the first file entry that does not
  parse has a dash, readDDLFiles returns the error of newDDLFile on it, and no collection.
\<close>

lemma readDDLFiles_bad_prefix_error:
  assumes "os_ReadDir w dir = Inr entries"
    and "firstBadEntry entries = Some f"
    and "CHR ''-'' \<in> set f"
  shows "\<exists>err. newDDLFile f = Failed err \<and> readDDLFiles w dir = Failed err"
proof -
  from assms(3) have "newDDLFile f \<noteq> Panicked"
    by (simp add: newDDLFile_Panicked_iff)
  with readDDLFiles_loop_bad [OF assms(2), of "[]"] assms(1) show ?thesis
    by (auto simp: readDDLFiles_def)
qed
subsection \<open>Examples\<close>

lemma newDDLFile_examples:
  "newDDLFile ''001-a.sql'' = Returned \<lparr>filename = ''001-a.sql'', fileNumber = 1\<rparr>"
  "newDDLFile ''002-b.sql'' = Returned \<lparr>filename = ''002-b.sql'', fileNumber = 2\<rparr>"
  "newDDLFile ''003-c.sql'' = Returned \<lparr>filename = ''003-c.sql'', fileNumber = 3\<rparr>"
  "newDDLFile ''01-b.sql'' = Returned \<lparr>filename = ''01-b.sql'', fileNumber = 1\<rparr>"
  "newDDLFile ''1-a.sql'' = Returned \<lparr>filename = ''1-a.sql'', fileNumber = 1\<rparr>"
  "newDDLFile ''x02-b.sql'' = Failed (ErrSyntax ''Atoi'' ''x02'')"
  "newDDLFile ''y03-c.sql'' = Failed (ErrSyntax ''Atoi'' ''y03'')"
  "newDDLFile ''readme.sql'' = Panicked"
  by (simp_all add: newDDLFile_def slice_to_def Atoi_def ParseInt_def ParseUint_def
      digitVal_def intSize_def maxUint64_def)

lemma exampleWorld_simps:
  "os_ReadDir (exampleWorld up down) ''db/up'' = Inr up"
  "os_ReadDir (exampleWorld up down) ''db/down'' = Inr down"
  "NewConfigFile (exampleWorld up down) ''./config/default.json'' = Returned exampleConfig"
  "MigrationScriptsDir (Config exampleConfig) = ''db''"
  by (simp_all add: exampleWorld_def NewConfigFile_def exampleConfig_def)

lemma exampleConfig_URI:
  "ConnectionURI (newPostgreSQLDSN exampleConfig)
     = ''postgresql://alice@localhost:5432/mydb?options=-csearch_path%3Dpublic''"
  by (simp add: ConnectionURI_parts newPostgreSQLDSN_def exampleConfig_def escape_examples Itoa_5432)

text \<open>\<open>sort.Sort\<close> on three files out of order, and on two files with the same number.\<close>

lemma sort_Sort_examples:
  "sort_Sort [\<lparr>filename = ''003-c.sql'', fileNumber = 3\<rparr>,
              \<lparr>filename = ''001-a.sql'', fileNumber = 1\<rparr>,
              \<lparr>filename = ''002-b.sql'', fileNumber = 2\<rparr>]
     = [\<lparr>filename = ''001-a.sql'', fileNumber = 1\<rparr>,
        \<lparr>filename = ''002-b.sql'', fileNumber = 2\<rparr>,
        \<lparr>filename = ''003-c.sql'', fileNumber = 3\<rparr>]"
  "sort_Sort [\<lparr>filename = ''01-b.sql'', fileNumber = 1\<rparr>,
              \<lparr>filename = ''1-a.sql'', fileNumber = 1\<rparr>]
     = [\<lparr>filename = ''01-b.sql'', fileNumber = 1\<rparr>,
        \<lparr>filename = ''1-a.sql'', fileNumber = 1\<rparr>]"
  by (simp_all add: sort_Sort_small insertionSort_def insertionSort_from.simps
      insertionSort_down.simps Swap_def Less_def)

subsection \<open>Sorted output\<close>

lemma readDDLFiles_all_parse:
  assumes "os_ReadDir w dir = Inr entries" and "all_parse entries"
  shows "readDDLFiles w dir = Returned (sort_Sort (parsedFiles entries))"
  using assms readDDLFiles_loop_all_parse [OF assms(2), of "[]"]
  by (simp add: readDDLFiles_def)

text \<open>
  Claim C3: when the directory can be listed and every file entry parses, readDDLFiles
  returns a collection, it is sorted non-decreasing by file number, and it holds exactly
  the files parsed from the entries. The order is the work of \<open>sort.Sort\<close> on the methods
  Len, Less and Swap of byFileNumber.
\<close>

theorem readDDLFiles_sorted:
  assumes "os_ReadDir w dir = Inr entries"
    and "all_parse entries"
  shows "\<exists>ddlFiles. readDDLFiles w dir = Returned ddlFiles
           \<and> sorted (map fileNumber ddlFiles)
           \<and> mset ddlFiles = mset (parsedFiles entries)"
  using readDDLFiles_all_parse [OF assms] sort_Sort_sorted [of "parsedFiles entries"]
    sort_Sort_mset [of "parsedFiles entries"]
  by simp

theorem readDDLFiles_sorted_witness:
  "os_ReadDir (exampleWorld [entry ''003-c.sql'', entry ''001-a.sql'', subdir ''old'', entry ''002-b.sql''] [])
        ''db/up''
      = Inr [entry ''003-c.sql'', entry ''001-a.sql'', subdir ''old'', entry ''002-b.sql'']
   \<and> all_parse [entry ''003-c.sql'', entry ''001-a.sql'', subdir ''old'', entry ''002-b.sql'']
   \<and> (\<exists>ddlFiles.
        readDDLFiles
          (exampleWorld [entry ''003-c.sql'', entry ''001-a.sql'', subdir ''old'', entry ''002-b.sql''] [])
          ''db/up'' = Returned ddlFiles
        \<and> sorted (map fileNumber ddlFiles)
        \<and> map filename ddlFiles = [''001-a.sql'', ''002-b.sql'', ''003-c.sql''])"
proof -
  have p: "all_parse [entry ''003-c.sql'', entry ''001-a.sql'', subdir ''old'', entry ''002-b.sql'']"
    by (simp add: all_parse_def fileEntries_def entry_def subdir_def parses_def newDDLFile_examples)
  have r: "readDDLFiles
          (exampleWorld [entry ''003-c.sql'', entry ''001-a.sql'', subdir ''old'', entry ''002-b.sql''] [])
          ''db/up''
      = Returned [\<lparr>filename = ''001-a.sql'', fileNumber = 1\<rparr>,
                  \<lparr>filename = ''002-b.sql'', fileNumber = 2\<rparr>,
                  \<lparr>filename = ''003-c.sql'', fileNumber = 3\<rparr>]"
    by (simp add: readDDLFiles_def exampleWorld_simps entry_def subdir_def newDDLFile_examples
        sort_Sort_examples)
  from readDDLFiles_sorted [OF exampleWorld_simps(1) p] r p
  show ?thesis
    by (simp add: exampleWorld_simps)
qed

subsection \<open>An input that is sorted already\<close>



subsection \<open>An entry that does not parse\<close>

text \<open>
  Claim C8 (the part that fails): a listing with a file entry that does not parse should
  end with the first parse failure as an error. When the first such entry has no dash,
  newDDLFile panics on it and so does readDDLFiles: its caller gets no error and no
  collection. When the first such entry has a dash, the error of newDDLFile on it is
  returned, as the claim says (lemma \<open>readDDLFiles_bad_prefix_error\<close>); directories are
  passed over before any parsing.
\<close>

theorem readDDLFiles_first_failure:
  assumes "os_ReadDir w dir = Inr entries"
    and "firstBadEntry entries = Some f"
    and "CHR ''-'' \<notin> set f"
  shows "readDDLFiles w dir = Panicked"
proof -
  from assms(3) have "newDDLFile f = Panicked"
    by (simp add: newDDLFile_Panicked_iff)
  with readDDLFiles_loop_bad [OF assms(2), of "[]"] assms(1) show ?thesis
    by (auto simp: readDDLFiles_def)
qed

theorem readDDLFiles_first_failure_witness:
  "os_ReadDir (exampleWorld [subdir ''old'', entry ''001-a.sql'', entry ''readme.sql'', entry ''x02-b.sql''] [])
      ''db/up''
     = Inr [subdir ''old'', entry ''001-a.sql'', entry ''readme.sql'', entry ''x02-b.sql'']
   \<and> firstBadEntry [subdir ''old'', entry ''001-a.sql'', entry ''readme.sql'', entry ''x02-b.sql'']
       = Some ''readme.sql''
   \<and> CHR ''-'' \<notin> set ''readme.sql''
   \<and> readDDLFiles
        (exampleWorld [subdir ''old'', entry ''001-a.sql'', entry ''readme.sql'', entry ''x02-b.sql''] [])
        ''db/up''
       = Panicked"
proof -
  have b: "firstBadEntry [subdir ''old'', entry ''001-a.sql'', entry ''readme.sql'', entry ''x02-b.sql'']
       = Some ''readme.sql''"
    by (simp add: firstBadEntry_def fileEntries_def entry_def subdir_def parses_def
        newDDLFile_examples)
  have d: "CHR ''-'' \<notin> set ''readme.sql''"
    by simp
  from readDDLFiles_first_failure [OF exampleWorld_simps(1) b d] b d
  show ?thesis
    by (simp add: exampleWorld_simps)
qed
subsection \<open>A directory without files\<close>

lemma readDDLFiles_no_files:
  assumes "os_ReadDir w dir = Inr entries" and "fileEntries entries = []"
  shows "readDDLFiles w dir = Returned []"
proof -
  from assms(2) have "all_parse entries" and "parsedFiles entries = []"
    by (simp_all add: all_parse_def parsedFiles_def)
  with readDDLFiles_all_parse [OF assms(1)] sort_Sort_Nil
  show ?thesis by simp
qed

text \<open>
  Claim C4, amended: for a directory that can be listed and has no file entry (it is
  empty, or has subdirectories only), readDDLFiles returns the empty collection and no
  error. It is its caller PSQLArgs that makes an error of this, \<open>there are no DDL files to
  process in <dir>\<close>, and returns it in place of an argument list.
\<close>

theorem no_files_error:
  assumes "NewConfigFile w (''./config/'' @ profile @ ''.json'') = Returned f"
    and "dir = MigrationScriptsDir (Config f) @ (if up then ''/up'' else ''/down'')"
    and "os_ReadDir w dir = Inr entries"
    and "fileEntries entries = []"
  shows "readDDLFiles w dir = Returned []
         \<and> PSQLArgs w up profile
             = Failed (Errorf (''there are no DDL files to process in '' @ dir))"
  using readDDLFiles_no_files [OF assms(3,4)] assms(1,2)
  by (simp add: PSQLArgs_def)

theorem no_files_error_witness:
  "NewConfigFile (exampleWorld [] [subdir ''old'']) (''./config/'' @ ''default'' @ ''.json'')
       = Returned exampleConfig
   \<and> ''db/down'' = MigrationScriptsDir (Config exampleConfig) @ (if False then ''/up'' else ''/down'')
   \<and> os_ReadDir (exampleWorld [] [subdir ''old'']) ''db/down'' = Inr [subdir ''old'']
   \<and> fileEntries [subdir ''old''] = []
   \<and> readDDLFiles (exampleWorld [] [subdir ''old'']) ''db/down'' = Returned []
   \<and> PSQLArgs (exampleWorld [] [subdir ''old'']) False ''default''
       = Failed (Errorf ''there are no DDL files to process in db/down'')"
  using no_files_error [of "exampleWorld [] [subdir ''old'']" "''default''" exampleConfig
      "''db/down''" False "[subdir ''old'']"]
  by (simp add: exampleWorld_simps fileEntries_def subdir_def)

text \<open>
  Claim C4 as stated fails: for the empty directory readDDLFiles returns the empty
  collection to its caller, with no error.
\<close>

theorem no_files_error_counterexample:
  "os_ReadDir (exampleWorld [] []) ''db/up'' = Inr []
   \<and> readDDLFiles (exampleWorld [] []) ''db/up'' = Returned []"
  by (simp add: readDDLFiles_def exampleWorld_simps sort_Sort_Nil)

subsection \<open>The argument list\<close>

lemma foldl_args:
  "foldl (\<lambda>args file. args @ [''-f''] @ [dir @ ''/'' @ filename file]) args ddlFiles
     = args @ fileArgs dir ddlFiles"
  by (induction ddlFiles arbitrary: args) (simp_all add: fileArgs_def)

lemma PSQLArgs_Returned:
  assumes "NewConfigFile w (''./config/'' @ profile @ ''.json'') = Returned f"
    and "dir = MigrationScriptsDir (Config f) @ (if up then ''/up'' else ''/down'')"
    and "readDDLFiles w dir = Returned ddlFiles"
    and "ddlFiles \<noteq> []"
  shows "PSQLArgs w up profile = Returned (prefixArgs f @ fileArgs dir ddlFiles)"
  using assms unfolding PSQLArgs_def Let_def foldl_args
  by (simp add: prefixArgs_def)

text \<open>
  Claim C1, amended: for every configuration that loads and every migration directory
  that can be listed, whose file entries all parse and that has at least one file entry,
  PSQLArgs returns the five arguments \<open>-w\<close>, \<open>-d\<close>, the connection URI, \<open>-c\<close>, \<open>select
  current_database(), current_user, version()\<close>, followed by one pair \<open>-f\<close>,
  \<open><subdirectory>/<filename>\<close> for each parsed file and by nothing else. The pairs are in
  ascending order of file number: non-decreasing, and strictly increasing when no two
  files have the same number.
\<close>

theorem PSQLArgs_arguments:
  assumes "NewConfigFile w (''./config/'' @ profile @ ''.json'') = Returned f"
    and "dir = MigrationScriptsDir (Config f) @ (if up then ''/up'' else ''/down'')"
    and "os_ReadDir w dir = Inr entries"
    and "all_parse entries"
    and "fileEntries entries \<noteq> []"
  shows "\<exists>ddlFiles.
           PSQLArgs w up profile
             = Returned ([''-w'', ''-d'', ConnectionURI (newPostgreSQLDSN f), ''-c'',
                          ''select current_database(), current_user, version()'']
                         @ fileArgs dir ddlFiles)
           \<and> mset ddlFiles = mset (parsedFiles entries)
           \<and> mset (map filename ddlFiles) = mset (fileEntries entries)
           \<and> sorted (map fileNumber ddlFiles)
           \<and> (distinct (map fileNumber ddlFiles) \<longrightarrow> sorted_wrt (<) (map fileNumber ddlFiles))"
proof -
  define ddlFiles where "ddlFiles = sort_Sort (parsedFiles entries)"
  have r: "readDDLFiles w dir = Returned ddlFiles"
    unfolding ddlFiles_def using assms(3,4) by (rule readDDLFiles_all_parse)
  have m: "mset ddlFiles = mset (parsedFiles entries)"
    unfolding ddlFiles_def by (rule sort_Sort_mset)
  have s: "sorted (map fileNumber ddlFiles)"
    unfolding ddlFiles_def by (rule sort_Sort_sorted)
  have names: "map filename (parsedFiles entries) = fileEntries entries"
    using assms(4) parsedFiles_names by simp
  from m have "mset (map filename ddlFiles) = mset (map filename (parsedFiles entries))"
    by simp
  with names have n: "mset (map filename ddlFiles) = mset (fileEntries entries)"
    by simp
  from n assms(5) have "ddlFiles \<noteq> []"
    by auto
  from PSQLArgs_Returned [OF assms(1,2) r this]
  have "PSQLArgs w up profile
      = Returned ([''-w'', ''-d'', ConnectionURI (newPostgreSQLDSN f), ''-c'',
                   ''select current_database(), current_user, version()'']
                  @ fileArgs dir ddlFiles)"
    by (simp add: prefixArgs_def)
  with m n s show ?thesis
    by (auto simp: strict_sorted_iff)
qed

theorem PSQLArgs_arguments_witness:
  "NewConfigFile (exampleWorld [entry ''003-c.sql'', entry ''001-a.sql'', entry ''002-b.sql''] [])
        (''./config/'' @ ''default'' @ ''.json'') = Returned exampleConfig
   \<and> ''db/up'' = MigrationScriptsDir (Config exampleConfig) @ (if True then ''/up'' else ''/down'')
   \<and> os_ReadDir (exampleWorld [entry ''003-c.sql'', entry ''001-a.sql'', entry ''002-b.sql''] [])
        ''db/up'' = Inr [entry ''003-c.sql'', entry ''001-a.sql'', entry ''002-b.sql'']
   \<and> all_parse [entry ''003-c.sql'', entry ''001-a.sql'', entry ''002-b.sql'']
   \<and> fileEntries [entry ''003-c.sql'', entry ''001-a.sql'', entry ''002-b.sql''] \<noteq> []
   \<and> PSQLArgs
        (exampleWorld [entry ''003-c.sql'', entry ''001-a.sql'', entry ''002-b.sql''] [])
        True ''default''
       = Returned [''-w'', ''-d'',
           ''postgresql://alice@localhost:5432/mydb?options=-csearch_path%3Dpublic'',
           ''-c'', ''select current_database(), current_user, version()'',
           ''-f'', ''db/up/001-a.sql'', ''-f'', ''db/up/002-b.sql'', ''-f'', ''db/up/003-c.sql'']"
proof -
  have p: "all_parse [entry ''003-c.sql'', entry ''001-a.sql'', entry ''002-b.sql'']"
    by (simp add: all_parse_def fileEntries_def entry_def parses_def newDDLFile_examples)
  have e: "fileEntries [entry ''003-c.sql'', entry ''001-a.sql'', entry ''002-b.sql''] \<noteq> []"
    by (simp add: fileEntries_def entry_def)
  have r: "readDDLFiles
        (exampleWorld [entry ''003-c.sql'', entry ''001-a.sql'', entry ''002-b.sql''] []) ''db/up''
      = Returned [\<lparr>filename = ''001-a.sql'', fileNumber = 1\<rparr>,
                  \<lparr>filename = ''002-b.sql'', fileNumber = 2\<rparr>,
                  \<lparr>filename = ''003-c.sql'', fileNumber = 3\<rparr>]"
    by (simp add: readDDLFiles_def exampleWorld_simps entry_def newDDLFile_examples
        sort_Sort_examples)
  have a: "PSQLArgs
        (exampleWorld [entry ''003-c.sql'', entry ''001-a.sql'', entry ''002-b.sql''] [])
        True ''default''
       = Returned [''-w'', ''-d'',
           ''postgresql://alice@localhost:5432/mydb?options=-csearch_path%3Dpublic'',
           ''-c'', ''select current_database(), current_user, version()'',
           ''-f'', ''db/up/001-a.sql'', ''-f'', ''db/up/002-b.sql'', ''-f'', ''db/up/003-c.sql'']"
    by (simp add: PSQLArgs_def exampleWorld_simps r exampleConfig_URI)
  from PSQLArgs_arguments [where profile = "''default''"
      and w = "exampleWorld [entry ''003-c.sql'', entry ''001-a.sql'', entry ''002-b.sql''] []"
      and f = exampleConfig and dir = "''db/up''" and up = True
      and entries = "[entry ''003-c.sql'', entry ''001-a.sql'', entry ''002-b.sql'']"]
    p e a
  show ?thesis
    by (simp add: exampleWorld_simps)
qed

text \<open>
  Claim C1 as stated fails in two ways. For a migration directory without files, all of
  its (no) files parse, and PSQLArgs returns an error, not the five arguments. And for the
  directory with \<open>01-b.sql\<close> and \<open>1-a.sql\<close>, whose files both parse, to the file number 1,
  PSQLArgs returns the two pairs one after the other: their file numbers are not strictly
  ascending.
\<close>

theorem PSQLArgs_arguments_counterexample:
  "os_ReadDir (exampleWorld [] []) ''db/up'' = Inr []
   \<and> all_parse []
   \<and> PSQLArgs (exampleWorld [] []) True ''default''
       = Failed (Errorf ''there are no DDL files to process in db/up'')
   \<and> os_ReadDir (exampleWorld [entry ''01-b.sql'', entry ''1-a.sql''] []) ''db/up''
       = Inr [entry ''01-b.sql'', entry ''1-a.sql'']
   \<and> all_parse [entry ''01-b.sql'', entry ''1-a.sql'']
   \<and> readDDLFiles (exampleWorld [entry ''01-b.sql'', entry ''1-a.sql''] []) ''db/up''
       = Returned [\<lparr>filename = ''01-b.sql'', fileNumber = 1\<rparr>,
                   \<lparr>filename = ''1-a.sql'', fileNumber = 1\<rparr>]
   \<and> \<not> sorted_wrt (<) (map fileNumber [\<lparr>filename = ''01-b.sql'', fileNumber = 1\<rparr>,
                                             \<lparr>filename = ''1-a.sql'', fileNumber = 1\<rparr>])
   \<and> PSQLArgs (exampleWorld [entry ''01-b.sql'', entry ''1-a.sql''] []) True ''default''
       = Returned [''-w'', ''-d'',
           ''postgresql://alice@localhost:5432/mydb?options=-csearch_path%3Dpublic'',
           ''-c'', ''select current_database(), current_user, version()'',
           ''-f'', ''db/up/01-b.sql'', ''-f'', ''db/up/1-a.sql'']"
proof -
  have empty: "PSQLArgs (exampleWorld [] []) True ''default''
       = Failed (Errorf ''there are no DDL files to process in db/up'')"
    by (simp add: PSQLArgs_def readDDLFiles_def exampleWorld_simps sort_Sort_Nil)
  have p: "all_parse [] \<and> all_parse [entry ''01-b.sql'', entry ''1-a.sql'']"
    by (simp add: all_parse_def fileEntries_def entry_def parses_def newDDLFile_examples)
  have r: "readDDLFiles (exampleWorld [entry ''01-b.sql'', entry ''1-a.sql''] []) ''db/up''
       = Returned [\<lparr>filename = ''01-b.sql'', fileNumber = 1\<rparr>,
                   \<lparr>filename = ''1-a.sql'', fileNumber = 1\<rparr>]"
    by (simp add: readDDLFiles_def exampleWorld_simps entry_def newDDLFile_examples
        sort_Sort_examples)
  have a: "PSQLArgs (exampleWorld [entry ''01-b.sql'', entry ''1-a.sql''] []) True ''default''
       = Returned [''-w'', ''-d'',
           ''postgresql://alice@localhost:5432/mydb?options=-csearch_path%3Dpublic'',
           ''-c'', ''select current_database(), current_user, version()'',
           ''-f'', ''db/up/01-b.sql'', ''-f'', ''db/up/1-a.sql'']"
    by (simp add: PSQLArgs_def exampleWorld_simps r exampleConfig_URI)
  from empty p r a show ?thesis
    by (simp add: exampleWorld_simps)
qed

end
